theory Spec2Isabelle
  imports Main "HOL-Library.Word"
begin

section \<open>Underlying ranges\<close>

text \<open>
  \<^verbatim>\<open>size_t\<close> is a 64-bit unsigned integer: \<^verbatim>\<open>++pos\<close> and
  \<^verbatim>\<open>--host_ptr->target_size\<close> wrap around.
\<close>

type_synonym size_t = "64 word"

text \<open>
  The two exceptions of the source (\<^verbatim>\<open>std::invalid_argument\<close> and
  \<^verbatim>\<open>seqan3::unexpected_end_of_input\<close>), and undefined behaviour: advancing or
  dereferencing a cursor of the underlying range that is already at its end, or
  dereferencing a null pointer.
\<close>

datatype error = invalid_argument | unexpected_end_of_input | undefined_behaviour

text \<open>
  A cursor of the underlying range is the list of the elements from its position on:
  it compares equal to the underlying sentinel when the list is empty, \<^verbatim>\<open>*it\<close> is the
  head and \<^verbatim>\<open>++it\<close> drops it. For a single-pass range this list is what is left
  of the input.
\<close>

definition base_at_end :: "'a list \<Rightarrow> bool" where
  "base_at_end b = (b = [])"

definition base_deref :: "'a list \<Rightarrow> error + 'a" where
  "base_deref b = (case b of [] \<Rightarrow> Inl undefined_behaviour | x # _ \<Rightarrow> Inr x)"

definition base_inc :: "'a list \<Rightarrow> error + 'a list" where
  "base_inc b = (case b of [] \<Rightarrow> Inl undefined_behaviour | _ # b' \<Rightarrow> Inr b')"

text \<open>\<^verbatim>\<open>std::ranges::size(urange)\<close>, a \<^verbatim>\<open>size_t\<close>.\<close>

definition ranges_size :: "'a list \<Rightarrow> size_t" where
  "ranges_size urange = of_nat (length urange)"

text \<open>
  The type of the underlying range, as far as the concept checks of the source
  (\<^verbatim>\<open>if constexpr\<close>, \<^verbatim>\<open>requires\<close>, \<^verbatim>\<open>std::conditional_t\<close>) look at it, and
  as far as \<^verbatim>\<open>std::move\<close> treats it. A \<^verbatim>\<open>range_type\<close> is any range or view that a
  move leaves as it was: a reference to a container, a span, a subrange, a view that
  refers to its elements. An \<^verbatim>\<open>owning_view\<close> holds its elements itself: it is not a
  forwarding range, and a move leaves it empty, as it leaves a standard container.
\<close>

datatype traversal =
  input_range | forward_range | bidirectional_range | random_access_range | contiguous_range

datatype urng_t =
  basic_string_view
  | basic_string_const_ref
  | range_type (strength: traversal) (is_sized: bool) (is_forwarding: bool)
  | owning_view traversal bool

fun SizedRange :: "urng_t \<Rightarrow> bool" where
  "SizedRange basic_string_view = True"
| "SizedRange basic_string_const_ref = True"
| "SizedRange (range_type t s f) = s"
| "SizedRange (owning_view t s) = s"

fun ForwardingRange :: "urng_t \<Rightarrow> bool" where
  "ForwardingRange basic_string_view = True"
| "ForwardingRange basic_string_const_ref = True"
| "ForwardingRange (range_type t s f) = f"
| "ForwardingRange (owning_view t s) = False"

fun traversal_of :: "urng_t \<Rightarrow> traversal" where
  "traversal_of basic_string_view = contiguous_range"
| "traversal_of basic_string_const_ref = contiguous_range"
| "traversal_of (range_type t s f) = t"
| "traversal_of (owning_view t s) = t"

text \<open>What a range of that type holds after \<^verbatim>\<open>std::move\<close> has taken it.\<close>

fun moved_from :: "urng_t \<Rightarrow> 'a list \<Rightarrow> 'a list" where
  "moved_from basic_string_view xs = xs"
| "moved_from basic_string_const_ref xs = xs"
| "moved_from (range_type t s f) xs = xs"
| "moved_from (owning_view t s) xs = []"

definition ContiguousRange :: "urng_t \<Rightarrow> bool" where
  "ContiguousRange ty = (traversal_of ty = contiguous_range)"

definition RandomAccessRange :: "urng_t \<Rightarrow> bool" where
  "RandomAccessRange ty = (traversal_of ty = random_access_range \<or> traversal_of ty = contiguous_range)"

definition ForwardIterator :: "urng_t \<Rightarrow> bool" where
  "ForwardIterator ty = (traversal_of ty \<noteq> input_range)"

text \<open>
  What a traversal \<^verbatim>\<open>for (it = v.begin(); it != v.end(); ++it) yield *it;\<close> shows:
  the elements it yielded, the exception that ended it (if one did), and the cursor
  (with whatever it shares with the view) it stopped at.
\<close>

record ('a, 's) run =
  yielded :: "'a list"
  raised :: "error option"
  final :: 's

definition emit :: "'a \<Rightarrow> ('a, 's) run \<Rightarrow> ('a, 's) run" where
  "emit x r = r\<lparr>yielded := x # yielded r\<rparr>"

section \<open>view_take (take.hpp)\<close>

text \<open>
  The members of \<^verbatim>\<open>view_take\<close>. \<^verbatim>\<open>urange\<close> is the range as the view was given
  it; how far a single-pass range has been read is the \<^verbatim>\<open>base\<close> of the cursor.
\<close>

record 'a view_take =
  urange :: "'a list"
  target_size :: size_t

text \<open>
  \<^verbatim>\<open>view_take::iterator_type\<close>: the inherited cursor of the underlying range,
  \<^verbatim>\<open>pos\<close> and \<^verbatim>\<open>max_pos\<close>. Its \<^verbatim>\<open>host_ptr\<close> points to the view: the
  operations that follow the pointer take the view along with the iterator and return
  both.
\<close>

record 'a iterator_type =
  base :: "'a list"
  pos :: size_t
  max_pos :: size_t

text \<open>
  The constructor \<^verbatim>\<open>view_take(urng_t _urange, size_t const _size)\<close>; the template
  parameters \<^verbatim>\<open>exactly\<close> and \<^verbatim>\<open>or_throw\<close> and the type of the range come first.
  The member initialiser \<^verbatim>\<open>urange{std::move(_urange)}\<close> runs before the body, so the
  body's \<^verbatim>\<open>seqan3::size(_urange)\<close> is the size of what the move has left in the
  parameter.
\<close>

definition view_take_ctor ::
  "bool \<Rightarrow> bool \<Rightarrow> urng_t \<Rightarrow> 'a list \<Rightarrow> size_t \<Rightarrow> error + 'a view_take" where
  "view_take_ctor exactly or_throw ty urange' size' =
     (if exactly \<and> or_throw \<and> SizedRange ty \<and> ranges_size (moved_from ty urange') < size'
      then Inl invalid_argument
      else Inr \<lparr>urange = urange', target_size = size'\<rparr>)"

text \<open>
  \<^verbatim>\<open>begin()\<close>: \<^verbatim>\<open>{seqan3::begin(urange), 0, target_size, &(*this)}\<close>. The cursor
  it returns holds its host; it is paired with the view it points to.
\<close>

definition view_take_begin :: "'a view_take \<Rightarrow> 'a iterator_type \<times> 'a view_take" where
  "view_take_begin v = (\<lparr>base = urange v, pos = 0, max_pos = target_size v\<rparr>, v)"

text \<open>
  \<^verbatim>\<open>begin() const\<close> and \<^verbatim>\<open>cbegin() const\<close> (they require a const-iterable
  underlying range): \<^verbatim>\<open>{seqan3::cbegin(urange), 0, target_size}\<close>. No host is passed,
  so the \<^verbatim>\<open>host_ptr\<close> of the cursor is \<^verbatim>\<open>nullptr\<close>; the view is paired with it all
  the same, as what \<^verbatim>\<open>size()\<close> is asked of.
\<close>

definition view_take_cbegin :: "'a view_take \<Rightarrow> 'a iterator_type \<times> 'a view_take" where
  "view_take_cbegin v = (\<lparr>base = urange v, pos = 0, max_pos = target_size v\<rparr>, v)"

text \<open>
  \<^verbatim>\<open>size()\<close>: the first overload requires \<^verbatim>\<open>exactly\<close>, the other two
  \<^verbatim>\<open>!exactly\<close> and a sized underlying range; otherwise the view has no \<^verbatim>\<open>size()\<close>.
\<close>

definition view_take_size :: "bool \<Rightarrow> urng_t \<Rightarrow> 'a view_take \<Rightarrow> size_t option" where
  "view_take_size exactly ty v =
     (if exactly then Some (target_size v)
      else if SizedRange ty then Some (min (target_size v) (ranges_size (urange v)))
      else None)"

text \<open>
  \<^verbatim>\<open>operator++()\<close>: the underlying cursor advances, \<^verbatim>\<open>pos\<close> is incremented, and
  \<^verbatim>\<open>if constexpr (exactly && !std::ForwardIterator<base_base_t>)\<close> the statement
  \<^verbatim>\<open>--host_ptr->target_size\<close> runs: it decrements the host's \<^verbatim>\<open>target_size\<close> when
  the cursor holds its host (\<open>host\<close>, a cursor of \<^verbatim>\<open>begin()\<close>), and dereferences a null
  pointer when it does not (a cursor of \<^verbatim>\<open>begin() const\<close> or \<^verbatim>\<open>cbegin()\<close>).
\<close>

definition iterator_inc ::
  "bool \<Rightarrow> bool \<Rightarrow> urng_t \<Rightarrow> 'a iterator_type \<times> 'a view_take
     \<Rightarrow> error + 'a iterator_type \<times> 'a view_take" where
  "iterator_inc host exactly ty st =
     (case base_inc (base (fst st)) of
        Inl e \<Rightarrow> Inl e
      | Inr b \<Rightarrow>
          if exactly \<and> \<not> ForwardIterator ty then
            (if host then
               Inr ((fst st)\<lparr>base := b, pos := pos (fst st) + 1\<rparr>,
                    (snd st)\<lparr>target_size := target_size (snd st) - 1\<rparr>)
             else Inl undefined_behaviour)
          else Inr ((fst st)\<lparr>base := b, pos := pos (fst st) + 1\<rparr>, snd st))"

text \<open>\<^verbatim>\<open>operator==(sentinel_type const & rhs)\<close>.\<close>

definition iterator_eq_sentinel :: "bool \<Rightarrow> 'a iterator_type \<Rightarrow> error + bool" where
  "iterator_eq_sentinel or_throw it =
     (if pos it \<ge> max_pos it then Inr True
      else if base_at_end (base it) then
        (if or_throw then Inl unexpected_end_of_input else Inr True)
      else Inr False)"

text \<open>
  The traversal of a \<^verbatim>\<open>view_take\<close> from a cursor on; \<open>host\<close> says whether the cursor
  holds its host.
\<close>

function take_loop ::
  "bool \<Rightarrow> bool \<Rightarrow> bool \<Rightarrow> urng_t \<Rightarrow> 'a iterator_type \<times> 'a view_take
     \<Rightarrow> ('a, 'a iterator_type \<times> 'a view_take) run" where
  "take_loop host exactly or_throw ty st =
     (case iterator_eq_sentinel or_throw (fst st) of
        Inl e \<Rightarrow> \<lparr>yielded = [], raised = Some e, final = st\<rparr>
      | Inr at_end \<Rightarrow>
          if at_end then \<lparr>yielded = [], raised = None, final = st\<rparr>
          else
            (case base_deref (base (fst st)) of
               Inl e \<Rightarrow> \<lparr>yielded = [], raised = Some e, final = st\<rparr>
             | Inr x \<Rightarrow>
                 (case iterator_inc host exactly ty st of
                    Inl e \<Rightarrow> \<lparr>yielded = [x], raised = Some e, final = st\<rparr>
                  | Inr st' \<Rightarrow> emit x (take_loop host exactly or_throw ty st'))))"
  by pat_completeness auto
termination
  by (relation "measure (\<lambda>(host, exactly, or_throw, ty, st). length (base (fst st)))")
     (auto simp: iterator_inc_def base_inc_def split: list.splits if_splits)

declare take_loop.simps [simp del]

text \<open>The traversal of a view from \<^verbatim>\<open>begin()\<close>, and of a const view.\<close>

definition view_take_traverse ::
  "bool \<Rightarrow> bool \<Rightarrow> urng_t \<Rightarrow> 'a view_take \<Rightarrow> ('a, 'a iterator_type \<times> 'a view_take) run" where
  "view_take_traverse exactly or_throw ty v =
     take_loop True exactly or_throw ty (view_take_begin v)"

definition view_take_traverse_const ::
  "bool \<Rightarrow> bool \<Rightarrow> urng_t \<Rightarrow> 'a view_take \<Rightarrow> ('a, 'a iterator_type \<times> 'a view_take) run" where
  "view_take_traverse_const exactly or_throw ty v =
     take_loop False exactly or_throw ty (view_take_cbegin v)"

text \<open>
  The first \<^verbatim>\<open>k\<close> rounds of that traversal (compare with the sentinel, and advance
  when the comparison is false): the cursor and the view after them, if the traversal
  gets that far.
\<close>

fun take_rounds ::
  "nat \<Rightarrow> bool \<Rightarrow> bool \<Rightarrow> bool \<Rightarrow> urng_t \<Rightarrow> 'a iterator_type \<times> 'a view_take
     \<Rightarrow> ('a iterator_type \<times> 'a view_take) option" where
  "take_rounds 0 host exactly or_throw ty st = Some st"
| "take_rounds (Suc k) host exactly or_throw ty st =
     (case iterator_eq_sentinel or_throw (fst st) of
        Inl e \<Rightarrow> None
      | Inr at_end \<Rightarrow>
          if at_end then None
          else
            (case iterator_inc host exactly ty st of
               Inl e \<Rightarrow> None
             | Inr st' \<Rightarrow> take_rounds k host exactly or_throw ty st'))"

section \<open>take_fn (take.hpp)\<close>

text \<open>
  What the adaptor returns: a \<^verbatim>\<open>std::basic_string_view\<close>, a \<^verbatim>\<open>std::span\<close>, a
  \<^verbatim>\<open>std::ranges::subrange\<close> (with the size it was given) or a \<^verbatim>\<open>view_take\<close>.
  The first three are given by the elements they range over.
\<close>

datatype 'a take_result =
  string_view_result "'a list"
  | span_result "'a list"
  | subrange_result "'a list" size_t
  | view_take_result "'a view_take"

text \<open>
  \<^verbatim>\<open>urange.substr(0, count)\<close> of a string view: the first
  \<^verbatim>\<open>min(count, size())\<close> characters.
\<close>

definition substr0 :: "'a list \<Rightarrow> size_t \<Rightarrow> 'a list" where
  "substr0 urange' count = take (unat (min count (ranges_size urange'))) urange'"

text \<open>
  The \<^verbatim>\<open>n\<close> elements from \<^verbatim>\<open>std::ranges::data(urange)\<close> or
  \<^verbatim>\<open>std::ranges::begin(urange)\<close> on; past the end of the range the behaviour is
  undefined.
\<close>

definition first_n :: "'a list \<Rightarrow> size_t \<Rightarrow> error + 'a list" where
  "first_n urange' n =
     (if unat n \<le> length urange' then Inr (take (unat n) urange') else Inl undefined_behaviour)"

text \<open>
  \<^verbatim>\<open>take_fn<exactly, or_throw>::operator()(urng_t && urange, size_t target_size)\<close>.
  \<^verbatim>\<open>std::ranges::all_view<urng_t>\<close> is sized and multi-pass when \<^verbatim>\<open>urng_t\<close> is,
  and a move treats it as it treats \<^verbatim>\<open>urng_t\<close>.
\<close>

definition take_fn ::
  "bool \<Rightarrow> bool \<Rightarrow> urng_t \<Rightarrow> 'a list \<Rightarrow> size_t \<Rightarrow> error + 'a take_result" where
  "take_fn exactly or_throw ty urange' target_size' =
     (if SizedRange ty \<and> or_throw \<and> target_size' > ranges_size urange'
      then Inl invalid_argument
      else
        let target = (if SizedRange ty \<and> \<not> or_throw
                      then min target_size' (ranges_size urange') else target_size')
        in
          if ty = basic_string_view then
            Inr (string_view_result (substr0 urange' target))
          else if ty = basic_string_const_ref then
            map_sum id string_view_result (first_n urange' target)
          else if ForwardingRange ty \<and> ContiguousRange ty \<and> SizedRange ty then
            map_sum id span_result (first_n urange' target)
          else if ForwardingRange ty \<and> RandomAccessRange ty \<and> SizedRange ty then
            map_sum id (\<lambda>r. subrange_result r target) (first_n urange' target)
          else
            map_sum id view_take_result (view_take_ctor exactly or_throw ty urange' target))"

text \<open>
  Traversing and sizing what the adaptor returned. A string view, a span and a subrange
  yield their elements and raise nothing; a string view and a span know their length, a
  subrange the size it was constructed with.
\<close>

definition result_traverse ::
  "bool \<Rightarrow> bool \<Rightarrow> urng_t \<Rightarrow> 'a take_result \<Rightarrow> 'a list \<times> error option" where
  "result_traverse exactly or_throw ty r =
     (case r of
        string_view_result xs \<Rightarrow> (xs, None)
      | span_result xs \<Rightarrow> (xs, None)
      | subrange_result xs n \<Rightarrow> (xs, None)
      | view_take_result v \<Rightarrow>
          (yielded (view_take_traverse exactly or_throw ty v),
           raised (view_take_traverse exactly or_throw ty v)))"

definition result_size :: "bool \<Rightarrow> urng_t \<Rightarrow> 'a take_result \<Rightarrow> size_t option" where
  "result_size exactly ty r =
     (case r of
        string_view_result xs \<Rightarrow> Some (of_nat (length xs))
      | span_result xs \<Rightarrow> Some (of_nat (length xs))
      | subrange_result xs n \<Rightarrow> Some n
      | view_take_result v \<Rightarrow> view_take_size exactly ty v)"

text \<open>
  What a caller can observe of the adaptor's result: the traversal and the size. The
  general view for the same arguments is the one the constructor of \<^verbatim>\<open>view_take\<close>
  builds.
\<close>

definition observe ::
  "bool \<Rightarrow> bool \<Rightarrow> urng_t \<Rightarrow> 'a take_result \<Rightarrow> ('a list \<times> error option) \<times> size_t option" where
  "observe exactly or_throw ty r = (result_traverse exactly or_throw ty r, result_size exactly ty r)"

definition take_observed ::
  "bool \<Rightarrow> bool \<Rightarrow> urng_t \<Rightarrow> 'a list \<Rightarrow> size_t
     \<Rightarrow> error + ('a list \<times> error option) \<times> size_t option" where
  "take_observed exactly or_throw ty urange' target_size' =
     map_sum id (observe exactly or_throw ty) (take_fn exactly or_throw ty urange' target_size')"

definition general_view_observed ::
  "bool \<Rightarrow> bool \<Rightarrow> urng_t \<Rightarrow> 'a list \<Rightarrow> size_t
     \<Rightarrow> error + ('a list \<times> error option) \<times> size_t option" where
  "general_view_observed exactly or_throw ty urange' target_size' =
     map_sum id (\<lambda>v. observe exactly or_throw ty (view_take_result v))
       (view_take_ctor exactly or_throw ty urange' target_size')"

section \<open>view_take_until (take_until.hpp)\<close>

text \<open>
  The functor \<^verbatim>\<open>fun_t\<close> need only be \<^verbatim>\<open>std::invocable\<close>: a call may change the
  functor, which the view stores and its iterators and sentinels hold by reference. A
  call takes the functor's state and the element, and returns the boolean and the new
  state. A regular functor computes a predicate and leaves its state alone.
\<close>

type_synonym ('f, 'a) invocable = "'f \<Rightarrow> 'a \<Rightarrow> bool \<times> 'f"

definition regular_invocable :: "('a \<Rightarrow> bool) \<Rightarrow> ('f, 'a) invocable" where
  "regular_invocable p = (\<lambda>f x. (p x, f))"

definition ForwardRange :: "urng_t \<Rightarrow> bool" where
  "ForwardRange ty = (traversal_of ty \<noteq> input_range)"

subsection \<open>basic_iterator and basic_sentinel\<close>

text \<open>
  \<^verbatim>\<open>basic_iterator\<close> inherits every operation from the cursor of the underlying range
  and adds a reference to the functor: it is that cursor. The comparison
  \<^verbatim>\<open>operator==(basic_iterator<rng_t> const & lhs, basic_sentinel const & rhs)\<close> takes
  the cursor and the functor's state, and returns the state after it.
\<close>

definition basic_sentinel_eq ::
  "bool \<Rightarrow> ('f, 'a) invocable \<Rightarrow> 'a list \<times> 'f \<Rightarrow> (error + bool) \<times> 'f" where
  "basic_sentinel_eq or_throw call st =
     (if base_at_end (fst st) then
        (if or_throw then (Inl unexpected_end_of_input, snd st) else (Inr True, snd st))
      else
        (case base_deref (fst st) of
           Inl e \<Rightarrow> (Inl e, snd st)
         | Inr x \<Rightarrow> (case call (snd st) x of (b, f') \<Rightarrow> (Inr b, f'))))"

text \<open>The traversal with \<^verbatim>\<open>basic_iterator\<close> and \<^verbatim>\<open>basic_sentinel\<close>.\<close>

function until_loop ::
  "bool \<Rightarrow> ('f, 'a) invocable \<Rightarrow> 'a list \<times> 'f \<Rightarrow> ('a, 'a list \<times> 'f) run" where
  "until_loop or_throw call st =
     (case basic_sentinel_eq or_throw call st of
        (Inl e, f') \<Rightarrow> \<lparr>yielded = [], raised = Some e, final = (fst st, f')\<rparr>
      | (Inr at_end, f') \<Rightarrow>
          if at_end then \<lparr>yielded = [], raised = None, final = (fst st, f')\<rparr>
          else
            (case base_deref (fst st) of
               Inl e \<Rightarrow> \<lparr>yielded = [], raised = Some e, final = (fst st, f')\<rparr>
             | Inr x \<Rightarrow>
                 (case base_inc (fst st) of
                    Inl e \<Rightarrow> \<lparr>yielded = [x], raised = Some e, final = (fst st, f')\<rparr>
                  | Inr b \<Rightarrow> emit x (until_loop or_throw call (b, f')))))"
  by pat_completeness auto
termination
  by (relation "measure (\<lambda>(or_throw, call, st). length (fst st))")
     (auto simp: base_inc_def split: list.splits)

declare until_loop.simps [simp del]

subsection \<open>basic_consume_iterator\<close>

text \<open>
  The inherited cursor and \<^verbatim>\<open>at_end_gracefully\<close>; \<^verbatim>\<open>stored_end\<close>, the sentinel
  of the underlying range, has no content here (a cursor is at the end when nothing is
  left).
\<close>

record 'a basic_consume_iterator =
  cursor :: "'a list"
  at_end_gracefully :: bool

text \<open>
  The loop of \<^verbatim>\<open>operator++()\<close>:
  \<^verbatim>\<open>while ((this->base() != stored_end) && fun(**this)) { at_end_gracefully = true; base_t::operator++(); }\<close>
\<close>

function consume_while ::
  "('f, 'a) invocable \<Rightarrow> 'a basic_consume_iterator \<times> 'f
     \<Rightarrow> error + 'a basic_consume_iterator \<times> 'f" where
  "consume_while call st =
     (if \<not> base_at_end (cursor (fst st)) then
        (case base_deref (cursor (fst st)) of
           Inl e \<Rightarrow> Inl e
         | Inr x \<Rightarrow>
             (case call (snd st) x of
                (b, f') \<Rightarrow>
                  if b then
                    (case base_inc (cursor (fst st)) of
                       Inl e \<Rightarrow> Inl e
                     | Inr c \<Rightarrow>
                         consume_while call
                           ((fst st)\<lparr>at_end_gracefully := True, cursor := c\<rparr>, f'))
                  else Inr (fst st, f')))
      else Inr st)"
  by pat_completeness auto
termination
  by (relation "measure (\<lambda>(call, st). length (cursor (fst st)))")
     (auto simp: base_inc_def split: list.splits)

declare consume_while.simps [simp del]

text \<open>\<^verbatim>\<open>operator++()\<close>.\<close>

definition consume_inc ::
  "('f, 'a) invocable \<Rightarrow> 'a basic_consume_iterator \<times> 'f
     \<Rightarrow> error + 'a basic_consume_iterator \<times> 'f" where
  "consume_inc call st =
     (case base_inc (cursor (fst st)) of
        Inl e \<Rightarrow> Inl e
      | Inr c \<Rightarrow> consume_while call ((fst st)\<lparr>cursor := c\<rparr>, snd st))"

text \<open>
  The constructor
  \<^verbatim>\<open>basic_consume_iterator(base_base_t it, fun_ref_t _fun, sentinel_type sen)\<close>.
\<close>

definition basic_consume_iterator_ctor ::
  "('f, 'a) invocable \<Rightarrow> 'a list \<Rightarrow> 'f \<Rightarrow> error + 'a basic_consume_iterator \<times> 'f" where
  "basic_consume_iterator_ctor call it f =
     (if \<not> base_at_end it then
        (case base_deref it of
           Inl e \<Rightarrow> Inl e
         | Inr x \<Rightarrow>
             (case call f x of
                (b, f') \<Rightarrow>
                  if b then consume_inc call (\<lparr>cursor = it, at_end_gracefully = True\<rparr>, f')
                  else Inr (\<lparr>cursor = it, at_end_gracefully = False\<rparr>, f')))
      else Inr (\<lparr>cursor = it, at_end_gracefully = False\<rparr>, f))"

text \<open>\<^verbatim>\<open>operator==(sentinel_type const & rhs)\<close>.\<close>

definition consume_eq_sentinel ::
  "bool \<Rightarrow> ('f, 'a) invocable \<Rightarrow> 'a basic_consume_iterator \<times> 'f \<Rightarrow> (error + bool) \<times> 'f" where
  "consume_eq_sentinel or_throw call st =
     (if at_end_gracefully (fst st) then (Inr True, snd st)
      else if base_at_end (cursor (fst st)) then
        (if or_throw then (Inl unexpected_end_of_input, snd st) else (Inr True, snd st))
      else
        (case base_deref (cursor (fst st)) of
           Inl e \<Rightarrow> (Inl e, snd st)
         | Inr x \<Rightarrow> (case call (snd st) x of (b, f') \<Rightarrow> (Inr b, f'))))"

text \<open>The loop of \<^verbatim>\<open>operator++()\<close> never moves the cursor backwards.\<close>

lemma consume_while_shrinks:
  "consume_while call st = Inr st' \<Longrightarrow> length (cursor (fst st')) \<le> length (cursor (fst st))"
proof (induction call st rule: consume_while.induct)
  case (1 call st)
  show ?case
  proof (cases "cursor (fst st)")
    case Nil
    with "1.prems" show ?thesis
      by (subst (asm) consume_while.simps) (auto simp: base_at_end_def)
  next
    case (Cons x c)
    obtain b f' where call: "call (snd st) x = (b, f')" by (cases "call (snd st) x")
    show ?thesis
    proof (cases b)
      case True
      with Cons call "1.prems"
      have "consume_while call ((fst st)\<lparr>at_end_gracefully := True, cursor := c\<rparr>, f') = Inr st'"
        by (subst (asm) consume_while.simps) (simp add: base_at_end_def base_deref_def base_inc_def)
      with "1.IH" [of x b "f'" c] Cons call True show ?thesis
        by (simp add: base_at_end_def base_deref_def base_inc_def)
    next
      case False
      with Cons call "1.prems" show ?thesis
        by (subst (asm) consume_while.simps) (auto simp: base_at_end_def base_deref_def)
    qed
  qed
qed

text \<open>The traversal with \<^verbatim>\<open>basic_consume_iterator\<close> against the underlying sentinel.\<close>

function consume_loop ::
  "bool \<Rightarrow> ('f, 'a) invocable \<Rightarrow> 'a basic_consume_iterator \<times> 'f
     \<Rightarrow> ('a, 'a basic_consume_iterator \<times> 'f) run" where
  "consume_loop or_throw call st =
     (case consume_eq_sentinel or_throw call st of
        (Inl e, f') \<Rightarrow> \<lparr>yielded = [], raised = Some e, final = (fst st, f')\<rparr>
      | (Inr at_end, f') \<Rightarrow>
          if at_end then \<lparr>yielded = [], raised = None, final = (fst st, f')\<rparr>
          else
            (case base_deref (cursor (fst st)) of
               Inl e \<Rightarrow> \<lparr>yielded = [], raised = Some e, final = (fst st, f')\<rparr>
             | Inr x \<Rightarrow>
                 (case consume_inc call (fst st, f') of
                    Inl e \<Rightarrow> \<lparr>yielded = [x], raised = Some e, final = (fst st, f')\<rparr>
                  | Inr st' \<Rightarrow> emit x (consume_loop or_throw call st'))))"
  by pat_completeness auto
termination
proof (relation "measure (\<lambda>(or_throw, call, st). length (cursor (fst st)))", goal_cases)
  case 1
  show ?case by simp
next
  case (2 or_throw call st r f' at_end x st')
  from \<open>consume_inc call (fst st, f') = Inr st'\<close>
  obtain c where c: "base_inc (cursor (fst st)) = Inr c"
    and w: "consume_while call ((fst st)\<lparr>cursor := c\<rparr>, f') = Inr st'"
    by (auto simp: consume_inc_def split: sum.splits)
  from c have "length c < length (cursor (fst st))"
    by (auto simp: base_inc_def split: list.splits)
  with consume_while_shrinks [OF w] show ?case by simp
qed

declare consume_loop.simps [simp del]

subsection \<open>The view\<close>

text \<open>
  \<^verbatim>\<open>begin()\<close> and \<^verbatim>\<open>end()\<close> of \<^verbatim>\<open>view_take_until\<close>, the overloads of a view
  that is not const, choose the consuming iterator and the underlying sentinel
  \<^verbatim>\<open>if constexpr (and_consume && !std::ranges::forward_range<urng_t>)\<close>, and
  \<^verbatim>\<open>basic_iterator\<close> with \<^verbatim>\<open>basic_sentinel\<close> otherwise. The traversal of the view
  built by \<^verbatim>\<open>take_until_fn<or_throw, and_consume>\<close> from a range and a functor ends
  with the position of the underlying cursor and the functor's state.
\<close>

definition consumed :: "('a, 'a basic_consume_iterator \<times> 'f) run \<Rightarrow> ('a, 'a list \<times> 'f) run" where
  "consumed r =
     \<lparr>yielded = yielded r, raised = raised r, final = (cursor (fst (final r)), snd (final r))\<rparr>"

definition view_take_until_traverse ::
  "bool \<Rightarrow> bool \<Rightarrow> urng_t \<Rightarrow> ('f, 'a) invocable \<Rightarrow> 'a list \<Rightarrow> 'f
     \<Rightarrow> ('a, 'a list \<times> 'f) run" where
  "view_take_until_traverse or_throw and_consume ty call urange' f =
     (if and_consume \<and> \<not> ForwardRange ty then
        (case basic_consume_iterator_ctor call urange' f of
           Inl e \<Rightarrow> \<lparr>yielded = [], raised = Some e, final = (urange', f)\<rparr>
         | Inr st \<Rightarrow> consumed (consume_loop or_throw call st))
      else until_loop or_throw call (urange', f))"

subsection \<open>The const view\<close>

text \<open>
  Modelled from the spec: \<^verbatim>\<open>inherited_iterator_base\<close>
  (seqan3/range/detail/inherited_iterator_base.hpp), from which \<^verbatim>\<open>basic_iterator\<close>
  takes every operation, is not among the sources. By the spec the iterator inherits
  the operations of the underlying cursor: compared with the sentinel of the underlying
  range, a \<^verbatim>\<open>basic_iterator\<close> is at the end when the underlying cursor is. This is
  the traversal of a \<^verbatim>\<open>basic_iterator\<close> against that sentinel; the functor is never
  called.
\<close>

function inherited_loop :: "'a list \<times> 'f \<Rightarrow> ('a, 'a list \<times> 'f) run" where
  "inherited_loop st =
     (if base_at_end (fst st) then \<lparr>yielded = [], raised = None, final = st\<rparr>
      else
        (case base_deref (fst st) of
           Inl e \<Rightarrow> \<lparr>yielded = [], raised = Some e, final = st\<rparr>
         | Inr x \<Rightarrow>
             (case base_inc (fst st) of
                Inl e \<Rightarrow> \<lparr>yielded = [x], raised = Some e, final = st\<rparr>
              | Inr b \<Rightarrow> emit x (inherited_loop (b, snd st)))))"
  by pat_completeness auto
termination
  by (relation "measure (\<lambda>st. length (fst st))")
     (auto simp: base_inc_def split: list.splits)

declare inherited_loop.simps [simp del]

text \<open>
  \<^verbatim>\<open>begin() const\<close> and \<^verbatim>\<open>end() const\<close> (they require \<^verbatim>\<open>const_iterable\<close>: a
  const-iterable underlying range and a regular functor). \<^verbatim>\<open>const_iterator\<close> is
  \<^verbatim>\<open>basic_iterator<urng_t const>\<close> whatever \<^verbatim>\<open>and_consume\<close> is, while
  \<^verbatim>\<open>end() const\<close> returns the bare sentinel of the underlying range
  \<^verbatim>\<open>if constexpr (and_consume && !std::ranges::forward_range<urng_t>)\<close> and a
  \<^verbatim>\<open>basic_sentinel\<close> otherwise.
\<close>

definition view_take_until_traverse_const ::
  "bool \<Rightarrow> bool \<Rightarrow> urng_t \<Rightarrow> ('f, 'a) invocable \<Rightarrow> 'a list \<Rightarrow> 'f
     \<Rightarrow> ('a, 'a list \<times> 'f) run" where
  "view_take_until_traverse_const or_throw and_consume ty call urange' f =
     (if and_consume \<and> \<not> ForwardRange ty then inherited_loop (urange', f)
      else until_loop or_throw call (urange', f))"

subsection \<open>Repeated comparison\<close>

text \<open>
  \<open>k\<close> comparisons of one \<^verbatim>\<open>basic_iterator\<close> with the \<^verbatim>\<open>basic_sentinel\<close>, one
  after the other and without advancing in between: their results in order, and the
  cursor and the functor's state after the last.
\<close>

fun compare_n ::
  "nat \<Rightarrow> bool \<Rightarrow> ('f, 'a) invocable \<Rightarrow> 'a list \<times> 'f \<Rightarrow> (error + bool) list \<times> ('a list \<times> 'f)" where
  "compare_n 0 or_throw call st = ([], st)"
| "compare_n (Suc k) or_throw call st =
     (case basic_sentinel_eq or_throw call st of
        (r, f') \<Rightarrow>
          (case compare_n k or_throw call (fst st, f') of
             (rs, st') \<Rightarrow> (r # rs, st')))"

subsection \<open>The invariant of the consuming iterator\<close>

text \<open>
  A \<^verbatim>\<open>basic_consume_iterator\<close> that has not ended gracefully and is not at the end of
  the underlying range points to an element that does not satisfy the predicate.
\<close>

definition consume_invariant :: "('a \<Rightarrow> bool) \<Rightarrow> 'a basic_consume_iterator \<Rightarrow> bool" where
  "consume_invariant p it =
     (\<not> at_end_gracefully it \<and> \<not> base_at_end (cursor it) \<longrightarrow> \<not> p (hd (cursor it)))"

section \<open>Properties of the count-bounded view\<close>

text \<open>An offset below \<^verbatim>\<open>max_pos\<close> is incremented without wrapping around.\<close>

lemma pos_inc: "(p::size_t) < m \<Longrightarrow> unat (p + 1) = Suc (unat p)"
proof -
  assume "p < m"
  then have "unat p < unat m" by (simp add: word_less_nat_alt)
  moreover have "unat m < 2 ^ 64" using unsigned_less [of m] by simp
  ultimately have "unat p + 1 < 2 ^ 64" by arith
  then show ?thesis by (simp add: unat_word_ariths)
qed

lemma take_loop_Nil:
  "take_loop h ex thr ty (\<lparr>base = [], pos = p, max_pos = m\<rparr>, v) =
     \<lparr>yielded = [], raised = (if p < m \<and> thr then Some unexpected_end_of_input else None),
      final = (\<lparr>base = [], pos = p, max_pos = m\<rparr>, v)\<rparr>"
  by (subst take_loop.simps) (simp add: iterator_eq_sentinel_def base_at_end_def not_le)

lemma take_loop_Cons:
  "take_loop h ex thr ty (\<lparr>base = x # xs, pos = p, max_pos = m\<rparr>, v) =
     (if m \<le> p then \<lparr>yielded = [], raised = None, final = (\<lparr>base = x # xs, pos = p, max_pos = m\<rparr>, v)\<rparr>
      else if ex \<and> \<not> ForwardIterator ty \<and> \<not> h then
        \<lparr>yielded = [x], raised = Some undefined_behaviour,
         final = (\<lparr>base = x # xs, pos = p, max_pos = m\<rparr>, v)\<rparr>
      else emit x (take_loop h ex thr ty (\<lparr>base = xs, pos = p + 1, max_pos = m\<rparr>,
              if ex \<and> \<not> ForwardIterator ty then v\<lparr>target_size := target_size v - 1\<rparr> else v)))"
  by (subst take_loop.simps)
     (simp add: iterator_eq_sentinel_def base_at_end_def base_deref_def iterator_inc_def base_inc_def)

text \<open>The whole traversal with a cursor that holds its host.\<close>

lemma take_loop_run:
  "take_loop True ex thr ty (\<lparr>base = xs, pos = p, max_pos = m\<rparr>, v) =
     \<lparr>yielded = take (unat m - unat p) xs,
      raised = (if thr \<and> length xs < unat m - unat p then Some unexpected_end_of_input else None),
      final = (\<lparr>base = drop (unat m - unat p) xs,
                pos = p + of_nat (min (length xs) (unat m - unat p)), max_pos = m\<rparr>,
               if ex \<and> \<not> ForwardIterator ty
               then v\<lparr>target_size := target_size v - of_nat (min (length xs) (unat m - unat p))\<rparr>
               else v)\<rparr>"
proof (induction xs arbitrary: p v)
  case Nil
  have "p < m \<longleftrightarrow> 0 < unat m - unat p" by (simp add: word_less_nat_alt)
  then show ?case by (simp add: take_loop_Nil)
next
  case (Cons x xs)
  show ?case
  proof (cases "m \<le> p")
    case True
    then have "unat m - unat p = 0" by (simp add: word_le_nat_alt)
    with True show ?thesis by (simp add: take_loop_Cons)
  next
    case False
    then have lt: "p < m" by simp
    then have k: "unat m - unat p = Suc (unat m - unat (p + 1))"
      using pos_inc [OF lt] by (simp add: word_less_nat_alt)
    show ?thesis
      using False by (simp add: take_loop_Cons Cons.IH emit_def k)
  qed
qed

lemma view_take_traverse_run:
  "view_take_traverse ex thr ty \<lparr>urange = s, target_size = n\<rparr> =
     \<lparr>yielded = take (unat n) s,
      raised = (if thr \<and> length s < unat n then Some unexpected_end_of_input else None),
      final = (\<lparr>base = drop (unat n) s, pos = of_nat (min (length s) (unat n)), max_pos = n\<rparr>,
               if ex \<and> \<not> ForwardIterator ty
               then \<lparr>urange = s, target_size = n - of_nat (min (length s) (unat n))\<rparr>
               else \<lparr>urange = s, target_size = n\<rparr>)\<rparr>"
  by (simp add: view_take_traverse_def view_take_begin_def take_loop_run)

lemma unat_ranges_size: "length s < 2 ^ 64 \<Longrightarrow> unat (ranges_size s) = length s"
  by (simp add: ranges_size_def unat_of_nat)

lemma unat_ranges_size_le: "unat (ranges_size s) \<le> length s"
  by (simp add: ranges_size_def unat_of_nat)

lemma unat_min: "unat (min a b) = min (unat a) (unat (b::size_t))"
  by (simp add: min_def word_le_nat_alt)

lemma first_n_min: "first_n s (min n (ranges_size s)) = Inr (take (unat (min n (ranges_size s))) s)"
  using unat_ranges_size_le [of s] by (simp add: first_n_def unat_min)

lemma take_clamped:
  assumes "length s < 2 ^ 64"
  shows "take (unat (min n (ranges_size s))) s = take (unat n) s"
proof -
  have "take (min (unat n) (length s)) s = take (unat n) s"
    by (simp add: min_def)
  with assms show ?thesis
    by (simp only: unat_min unat_ranges_size)
qed

lemma take_loop_raised:
  "raised (take_loop h ex thr ty st) \<noteq> Some invalid_argument"
proof -
  have rec: "raised (take_loop h ex thr ty (\<lparr>base = xs, pos = p, max_pos = m\<rparr>, v))
               \<noteq> Some invalid_argument" for xs p m v
  proof (induction xs arbitrary: p v)
    case Nil
    show ?case by (simp add: take_loop_Nil)
  next
    case (Cons x xs)
    show ?case by (simp add: take_loop_Cons emit_def Cons.IH)
  qed
  obtain it v where st: "st = (it, v)" by (cases st)
  have "it = \<lparr>base = base it, pos = pos it, max_pos = max_pos it\<rparr>" by simp
  with st have "st = (\<lparr>base = base it, pos = pos it, max_pos = max_pos it\<rparr>, v)" by simp
  then show ?thesis by (simp only: rec) simp
qed

text \<open>What a move leaves of a forwarding range, and of a range shorter than \<open>n\<close>.\<close>

lemma moved_from_forwarding: "ForwardingRange ty \<Longrightarrow> moved_from ty xs = xs"
  by (cases ty) simp_all

lemma ranges_size_moved_le: "unat (ranges_size (moved_from ty s)) \<le> length s"
  by (cases ty) (simp_all add: ranges_size_def unat_of_nat)

lemma ranges_size_less: "length s < unat n \<Longrightarrow> ranges_size s < (n::size_t)"
proof -
  assume a: "length s < unat n"
  have "unat n < 2 ^ 64" using unsigned_less [of n] by simp
  with a have "length s < 2 ^ 64" by arith
  then have "unat (ranges_size s) = length s" by (rule unat_ranges_size)
  with a show ?thesis by (simp add: word_less_nat_alt)
qed

lemma of_nat_less_size_t: "k < unat (n::size_t) \<Longrightarrow> (of_nat k :: size_t) < n"
proof -
  assume a: "k < unat n"
  have "unat n < 2 ^ 64" using unsigned_less [of n] by simp
  with a have "k < 2 ^ 64" by arith
  then have "unat (of_nat k :: size_t) = k" by (simp add: unat_of_nat)
  with a show ?thesis by (simp add: word_less_nat_alt)
qed

lemma ranges_size_moved_less: "length s < unat n \<Longrightarrow> ranges_size (moved_from ty s) < (n::size_t)"
  using ranges_size_moved_le [of ty s] by (simp add: word_less_nat_alt)

lemma take_fn_invalid_iff:
  assumes "moved_from ty s = s"
  shows "take_fn exactly or_throw ty s n = Inl invalid_argument
     \<longleftrightarrow> or_throw \<and> SizedRange ty \<and> ranges_size s < n"
proof (cases "SizedRange ty \<and> or_throw \<and> ranges_size s < n")
  case True
  then show ?thesis by (simp add: take_fn_def)
next
  case False
  have fn: "map_sum id g (first_n s m) \<noteq> Inl invalid_argument" for g :: "'a list \<Rightarrow> 'a take_result" and m
    by (simp add: first_n_def)
  have "map_sum id view_take_result (view_take_ctor exactly or_throw ty s m) \<noteq> Inl invalid_argument"
    if "\<not> (SizedRange ty \<and> or_throw \<and> ranges_size s < m)" for m
    using that assms by (auto simp: view_take_ctor_def)
  with False fn show ?thesis
    by (auto simp: take_fn_def Let_def)
qed

text \<open>
  After \<open>k\<close> rounds of the traversal the offset has grown by \<open>k\<close> and is still within
  \<^verbatim>\<open>max_pos\<close>; the host's \<^verbatim>\<open>target_size\<close> has shrunk by \<open>k\<close> where the iterator
  holds its host.
\<close>

lemma take_rounds_counts:
  assumes "take_rounds k h exactly or_throw ty st = Some st'"
  shows "(k = 0 \<or> unat (pos (fst st)) + k \<le> unat (max_pos (fst st)))
         \<and> pos (fst st') = pos (fst st) + of_nat k
         \<and> max_pos (fst st') = max_pos (fst st)
         \<and> target_size (snd st') =
             (if exactly \<and> \<not> ForwardIterator ty then target_size (snd st) - of_nat k
              else target_size (snd st))"
  using assms
proof (induction k arbitrary: st)
  case 0
  then show ?case by simp
next
  case (Suc k)
  from Suc.prems have lt: "pos (fst st) < max_pos (fst st)"
    by (auto simp: iterator_eq_sentinel_def not_le split: if_splits sum.splits)
  from Suc.prems obtain st1 where inc: "iterator_inc h exactly ty st = Inr st1"
    and rest: "take_rounds k h exactly or_throw ty st1 = Some st'"
    by (auto split: sum.splits if_splits)
  from inc have p1: "pos (fst st1) = pos (fst st) + 1"
    and m1: "max_pos (fst st1) = max_pos (fst st)"
    and t1: "target_size (snd st1) =
             (if exactly \<and> \<not> ForwardIterator ty then target_size (snd st) - 1
              else target_size (snd st))"
    by (auto simp: iterator_inc_def split: sum.splits if_splits)
  from pos_inc [OF lt] have u1: "unat (pos (fst st1)) = Suc (unat (pos (fst st)))"
    by (simp add: p1)
  from lt have "unat (pos (fst st)) < unat (max_pos (fst st))"
    by (simp add: word_less_nat_alt)
  with Suc.IH [OF rest] u1 m1 have bound: "unat (pos (fst st)) + Suc k \<le> unat (max_pos (fst st))"
    by auto
  from Suc.IH [OF rest] p1 m1 t1 bound show ?case
    by (simp add: algebra_simps)
qed

section \<open>Properties of the predicate-bounded view\<close>

lemma regular_invocable_apply: "regular_invocable p f x = (p x, f)"
  by (simp add: regular_invocable_def)

lemma until_loop_Nil:
  "until_loop thr call ([], f) =
     \<lparr>yielded = [], raised = (if thr then Some unexpected_end_of_input else None), final = ([], f)\<rparr>"
  by (subst until_loop.simps) (simp add: basic_sentinel_eq_def base_at_end_def)

lemma until_loop_Cons:
  "until_loop thr call (x # xs, f) =
     (if fst (call f x) then \<lparr>yielded = [], raised = None, final = (x # xs, snd (call f x))\<rparr>
      else emit x (until_loop thr call (xs, snd (call f x))))"
  by (subst until_loop.simps)
     (simp add: basic_sentinel_eq_def base_at_end_def base_deref_def base_inc_def split: prod.splits)

lemma until_loop_regular:
  "until_loop thr (regular_invocable p) (xs, f) =
     \<lparr>yielded = takeWhile (\<lambda>x. \<not> p x) xs,
      raised = (if thr \<and> (\<forall>x \<in> set xs. \<not> p x) then Some unexpected_end_of_input else None),
      final = (dropWhile (\<lambda>x. \<not> p x) xs, f)\<rparr>"
proof (induction xs)
  case Nil
  show ?case by (simp add: until_loop_Nil)
next
  case (Cons x xs)
  then show ?case
    by (simp add: until_loop_Cons regular_invocable_apply emit_def)
qed

lemma consume_while_regular:
  "consume_while (regular_invocable p) (\<lparr>cursor = xs, at_end_gracefully = g\<rparr>, f) =
     Inr (\<lparr>cursor = dropWhile p xs, at_end_gracefully = (g \<or> (xs \<noteq> [] \<and> p (hd xs)))\<rparr>, f)"
proof (induction xs arbitrary: g)
  case Nil
  show ?case by (subst consume_while.simps) (simp add: base_at_end_def)
next
  case (Cons x xs)
  show ?case
    by (subst consume_while.simps)
       (simp add: base_at_end_def base_deref_def base_inc_def regular_invocable_apply Cons.IH)
qed

lemma consume_inc_regular:
  "consume_inc (regular_invocable p) (\<lparr>cursor = x # xs, at_end_gracefully = g\<rparr>, f) =
     Inr (\<lparr>cursor = dropWhile p xs, at_end_gracefully = (g \<or> (xs \<noteq> [] \<and> p (hd xs)))\<rparr>, f)"
  by (simp add: consume_inc_def base_inc_def consume_while_regular)

lemma ctor_regular:
  "basic_consume_iterator_ctor (regular_invocable p) xs f =
     Inr (\<lparr>cursor = dropWhile p xs, at_end_gracefully = (xs \<noteq> [] \<and> p (hd xs))\<rparr>, f)"
proof (cases xs)
  case Nil
  then show ?thesis by (simp add: basic_consume_iterator_ctor_def base_at_end_def)
next
  case (Cons x xs')
  show ?thesis
  proof (cases "p x")
    case True
    with Cons show ?thesis
      by (simp add: basic_consume_iterator_ctor_def base_at_end_def base_deref_def
          regular_invocable_apply consume_inc_regular)
  next
    case False
    with Cons show ?thesis
      by (simp add: basic_consume_iterator_ctor_def base_at_end_def base_deref_def
          regular_invocable_apply)
  qed
qed

lemma consume_loop_graceful:
  "consume_loop thr call (\<lparr>cursor = xs, at_end_gracefully = True\<rparr>, f) =
     \<lparr>yielded = [], raised = None, final = (\<lparr>cursor = xs, at_end_gracefully = True\<rparr>, f)\<rparr>"
  by (subst consume_loop.simps) (simp add: consume_eq_sentinel_def)

lemma consume_loop_active:
  assumes "xs = [] \<or> \<not> p (hd xs)"
  shows "consume_loop thr (regular_invocable p) (\<lparr>cursor = xs, at_end_gracefully = False\<rparr>, f) =
     \<lparr>yielded = takeWhile (\<lambda>x. \<not> p x) xs,
      raised = (if thr \<and> (\<forall>x \<in> set xs. \<not> p x) then Some unexpected_end_of_input else None),
      final = (\<lparr>cursor = dropWhile p (dropWhile (\<lambda>x. \<not> p x) xs),
                at_end_gracefully = (\<exists>x \<in> set xs. p x)\<rparr>, f)\<rparr>"
  using assms
proof (induction xs)
  case Nil
  show ?case
    by (subst consume_loop.simps) (simp add: consume_eq_sentinel_def base_at_end_def)
next
  case (Cons x xs)
  then have npx: "\<not> p x" by simp
  have step: "consume_loop thr (regular_invocable p)
                (\<lparr>cursor = x # xs, at_end_gracefully = False\<rparr>, f) =
              emit x (consume_loop thr (regular_invocable p)
                (\<lparr>cursor = dropWhile p xs, at_end_gracefully = (xs \<noteq> [] \<and> p (hd xs))\<rparr>, f))"
    using npx
    by (subst consume_loop.simps)
       (simp add: consume_eq_sentinel_def base_at_end_def base_deref_def
          regular_invocable_apply consume_inc_regular)
  show ?case
  proof (cases "xs \<noteq> [] \<and> p (hd xs)")
    case True
    then obtain y ys where xs: "xs = y # ys" and py: "p y" by (cases xs) auto
    from True have g: "(xs \<noteq> [] \<and> p (hd xs)) = True" by simp
    show ?thesis
      unfolding step g consume_loop_graceful
      using npx py by (simp add: xs emit_def)
  next
    case False
    then have d: "dropWhile p xs = xs" by (cases xs) auto
    from False have g: "(xs \<noteq> [] \<and> p (hd xs)) = False" by simp
    from False have "xs = [] \<or> \<not> p (hd xs)" by blast
    from Cons.IH [OF this] npx show ?thesis
      unfolding step g d by (simp add: emit_def)
  qed
qed

lemma traverse_consuming:
  assumes "\<not> ForwardRange ty"
  shows "view_take_until_traverse thr True ty (regular_invocable p) s f =
     \<lparr>yielded = takeWhile (\<lambda>x. \<not> p x) s,
      raised = (if thr \<and> (\<forall>x \<in> set s. \<not> p x) then Some unexpected_end_of_input else None),
      final = (dropWhile p (dropWhile (\<lambda>x. \<not> p x) s), f)\<rparr>"
proof (cases "s \<noteq> [] \<and> p (hd s)")
  case True
  then obtain y ys where s: "s = y # ys" and py: "p y" by (cases s) auto
  from True have g: "(s \<noteq> [] \<and> p (hd s)) = True" by simp
  have "view_take_until_traverse thr True ty (regular_invocable p) s f =
          \<lparr>yielded = [], raised = None, final = (dropWhile p s, f)\<rparr>"
    using assms
    by (simp add: view_take_until_traverse_def ctor_regular g consume_loop_graceful consumed_def)
  with py show ?thesis by (simp add: s)
next
  case False
  then have d: "dropWhile p s = s" by (cases s) auto
  from False have g: "(s \<noteq> [] \<and> p (hd s)) = False" by simp
  from False have a: "s = [] \<or> \<not> p (hd s)" by blast
  from assms show ?thesis
    by (simp add: view_take_until_traverse_def ctor_regular g d
        consume_loop_active [where p = p, OF a] consumed_def)
qed

text \<open>The traversal against the bare sentinel yields the whole range.\<close>

lemma inherited_loop_all:
  "inherited_loop (xs, f) = \<lparr>yielded = xs, raised = None, final = ([], f)\<rparr>"
proof (induction xs)
  case Nil
  show ?case by (subst inherited_loop.simps) (simp add: base_at_end_def)
next
  case (Cons x xs)
  show ?case
    by (subst inherited_loop.simps)
       (simp add: base_at_end_def base_deref_def base_inc_def Cons.IH emit_def)
qed

lemma traverse_non_consuming:
  assumes "\<not> and_consume \<or> ForwardRange ty"
  shows "view_take_until_traverse thr and_consume ty (regular_invocable p) s f =
     \<lparr>yielded = takeWhile (\<lambda>x. \<not> p x) s,
      raised = (if thr \<and> (\<forall>x \<in> set s. \<not> p x) then Some unexpected_end_of_input else None),
      final = (dropWhile (\<lambda>x. \<not> p x) s, f)\<rparr>"
  using assms by (auto simp: view_take_until_traverse_def until_loop_regular)

section \<open>The claims\<close>

text \<open>
  C1. For every range \<open>s\<close> and count \<open>n\<close>, the adaptor without \<^verbatim>\<open>or_throw\<close>
  (\<^verbatim>\<open>take_fn<exactly, false>\<close>, whatever it returns for the type of \<open>s\<close>) raises
  nothing, and the traversal of its result yields the first \<open>n\<close> elements of \<open>s\<close>, all
  of \<open>s\<close> when it is shorter: \<open>min (length s) n\<close> elements, the \<open>i\<close>-th being the
  \<open>i\<close>-th of \<open>s\<close>. For \<open>n = 0\<close> it yields nothing. The size of a sized range is a
  \<^verbatim>\<open>size_t\<close>, so a sized \<open>s\<close> has fewer than \<open>2 ^ 64\<close> elements.
\<close>

theorem C1_take_prefix:
  assumes "SizedRange ty \<longrightarrow> length s < 2 ^ 64"
  shows "map_sum id (result_traverse exactly False ty) (take_fn exactly False ty s n)
           = Inr (take (unat n) s, None)
         \<and> length (take (unat n) s) = min (length s) (unat n)
         \<and> (\<forall>i < min (length s) (unat n). take (unat n) s ! i = s ! i)
         \<and> map_sum id (result_traverse exactly False ty) (take_fn exactly False ty s 0)
           = Inr ([], None)"
proof -
  have run: "map_sum id (result_traverse exactly False ty) (take_fn exactly False ty s m)
               = Inr (take (unat m) s, None)" for m
  proof (cases "SizedRange ty")
    case True
    with assms have len: "length s < 2 ^ 64" by simp
    show ?thesis
      using True
      by (simp add: take_fn_def Let_def substr0_def first_n_min take_clamped [OF len]
          result_traverse_def view_take_ctor_def view_take_traverse_run min.absorb1)
  next
    case False
    then have "ty \<noteq> basic_string_view" "ty \<noteq> basic_string_const_ref" by auto
    with False show ?thesis
      by (simp add: take_fn_def Let_def result_traverse_def view_take_ctor_def
          view_take_traverse_run)
  qed
  show ?thesis using run [of n] run [of 0] by simp
qed

theorem C1_take_prefix_witness:
  "(SizedRange (range_type contiguous_range True True) \<and> length [1::nat, 2, 3] < 2 ^ 64)
   \<and> map_sum id (result_traverse False False (range_type contiguous_range True True))
         (take_fn False False (range_type contiguous_range True True) [1::nat, 2, 3] 2)
       = Inr ([1, 2], None)
   \<and> (\<not> SizedRange (range_type input_range False False))
   \<and> map_sum id (result_traverse True False (range_type input_range False False))
         (take_fn True False (range_type input_range False False) [1::nat, 2, 3] 5)
       = Inr ([1, 2, 3], None)"
  using C1_take_prefix [where ty = "range_type contiguous_range True True"
      and s = "[1::nat, 2, 3]" and exactly = False and n = 2]
    C1_take_prefix [where ty = "range_type input_range False False"
      and s = "[1::nat, 2, 3]" and exactly = True and n = 5]
  by simp

text \<open>
  C2. Without \<^verbatim>\<open>or_throw\<close>, and with \<^verbatim>\<open>basic_iterator\<close> and \<^verbatim>\<open>basic_sentinel\<close>
  (\<^verbatim>\<open>and_consume\<close> unset, or a range that can be traversed again), the traversal of
  \<^verbatim>\<open>take_until\<close> over \<open>s\<close> with a regular predicate \<open>p\<close> raises nothing and yields
  the elements of \<open>s\<close> before the first one that satisfies \<open>p\<close>: all of \<open>s\<close> when no
  element does, the first \<open>i\<close> when the element at index \<open>i\<close> is the first that does. The
  underlying cursor is left at that element.
\<close>

theorem C2_take_until_prefix:
  assumes "\<not> and_consume \<or> ForwardRange ty"
  shows "view_take_until_traverse False and_consume ty (regular_invocable p) s f =
           \<lparr>yielded = takeWhile (\<lambda>x. \<not> p x) s, raised = None,
            final = (dropWhile (\<lambda>x. \<not> p x) s, f)\<rparr>
         \<and> ((\<forall>x \<in> set s. \<not> p x) \<longrightarrow>
              yielded (view_take_until_traverse False and_consume ty (regular_invocable p) s f) = s)
         \<and> (i < length s \<and> p (s ! i) \<and> (\<forall>j < i. \<not> p (s ! j)) \<longrightarrow>
              yielded (view_take_until_traverse False and_consume ty (regular_invocable p) s f)
                = take i s)"
proof -
  have run: "view_take_until_traverse False and_consume ty (regular_invocable p) s f =
           \<lparr>yielded = takeWhile (\<lambda>x. \<not> p x) s, raised = None,
            final = (dropWhile (\<lambda>x. \<not> p x) s, f)\<rparr>"
    using traverse_non_consuming [OF assms, of False p s f] by simp
  have all: "takeWhile (\<lambda>x. \<not> p x) s = s" if "\<forall>x \<in> set s. \<not> p x"
    using that by (simp add: takeWhile_eq_all_conv)
  have first: "takeWhile (\<lambda>x. \<not> p x) s = take i s"
    if "i < length s \<and> p (s ! i) \<and> (\<forall>j < i. \<not> p (s ! j))"
    using that by (intro takeWhile_eq_take_P_nth) auto
  from run all first show ?thesis by simp
qed

theorem C2_take_until_prefix_witness:
  "ForwardRange (range_type forward_range False False)
   \<and> view_take_until_traverse False True (range_type forward_range False False)
        (regular_invocable (\<lambda>x. x = 2)) [1::nat, 2, 3, 2] ()
       = \<lparr>yielded = [1], raised = None, final = ([2, 3, 2], ())\<rparr>"
proof -
  have fwd: "ForwardRange (range_type forward_range False False)"
    by (simp add: ForwardRange_def)
  then have h: "\<not> True \<or> ForwardRange (range_type forward_range False False)" by simp
  from C2_take_until_prefix [OF h, where p = "\<lambda>x. x = 2" and s = "[1::nat, 2, 3, 2]" and f = "()",
      THEN conjunct1]
  have "view_take_until_traverse False True (range_type forward_range False False)
        (regular_invocable (\<lambda>x. x = 2)) [1::nat, 2, 3, 2] ()
       = \<lparr>yielded = [1], raised = None, final = ([2, 3, 2], ())\<rparr>"
    by simp
  with fwd show ?thesis by (rule conjI)
qed

text \<open>
  The overloads \<^verbatim>\<open>begin()\<close> and \<^verbatim>\<open>end()\<close> of a view that is not const: with
  \<^verbatim>\<open>and_consume\<close> over a single-pass range \<open>[a, b, c, d]\<close> where \<open>p\<close> holds of \<open>b\<close>
  and \<open>c\<close> and of neither \<open>a\<close> nor \<open>d\<close>, the traversal yields \<open>[a]\<close>, raises nothing,
  and leaves the underlying cursor at \<open>d\<close>; for any \<open>s\<close> it leaves the underlying
  cursor behind the run of elements satisfying \<open>p\<close> that follows the yielded ones.
\<close>

lemma consuming_traversal:
  assumes "\<not> ForwardRange ty" and "\<not> p a" and "p b" and "p c" and "\<not> p d"
  shows "view_take_until_traverse or_throw True ty (regular_invocable p) [a, b, c, d] f =
           \<lparr>yielded = [a], raised = None, final = ([d], f)\<rparr>
         \<and> final (view_take_until_traverse or_throw True ty (regular_invocable p) s f)
             = (dropWhile p (dropWhile (\<lambda>x. \<not> p x) s), f)"
  using assms by (simp add: traverse_consuming)

text \<open>
  The overloads of a const view do not: with \<^verbatim>\<open>and_consume\<close> over a single-pass
  range they pair \<^verbatim>\<open>basic_iterator\<close> with the bare sentinel of the underlying range,
  so the traversal never calls the functor, yields the whole range and leaves nothing
  of it.
\<close>

lemma const_consuming_traversal:
  assumes "\<not> ForwardRange ty"
  shows "view_take_until_traverse_const or_throw True ty call s f =
           \<lparr>yielded = s, raised = None, final = ([], f)\<rparr>"
  using assms by (simp add: view_take_until_traverse_const_def inherited_loop_all)

text \<open>
  C3 on the code, at the single-pass range \<open>''a  d''\<close> with the predicate "is a blank",
  \<^verbatim>\<open>and_consume\<close> set and \<^verbatim>\<open>or_throw\<close> unset: the traversal of the view yields
  \<open>''a''\<close> and leaves the underlying cursor at \<open>''d''\<close>, as C3 says; the traversal of the
  same view when it is const yields all of \<open>''a  d''\<close>, blanks included, and leaves the
  underlying range exhausted.
\<close>

theorem C3_const_view_ignores_predicate:
  "view_take_until_traverse False True (range_type input_range False False)
      (regular_invocable (\<lambda>x. x = CHR '' '')) ''a  d'' ()
     = \<lparr>yielded = ''a'', raised = None, final = (''d'', ())\<rparr>
   \<and> view_take_until_traverse_const False True (range_type input_range False False)
      (regular_invocable (\<lambda>x. x = CHR '' '')) ''a  d'' ()
     = \<lparr>yielded = ''a  d'', raised = None, final = ([], ())\<rparr>"
proof -
  have single_pass: "\<not> ForwardRange (range_type input_range False False)"
    by (simp add: ForwardRange_def)
  have "view_take_until_traverse False True (range_type input_range False False)
      (regular_invocable (\<lambda>x. x = CHR '' '')) ''a  d'' ()
     = \<lparr>yielded = ''a'', raised = None, final = (''d'', ())\<rparr>"
    by (simp add: traverse_consuming [OF single_pass])
  moreover have "view_take_until_traverse_const False True (range_type input_range False False)
      (regular_invocable (\<lambda>x. x = CHR '' '')) ''a  d'' ()
     = \<lparr>yielded = ''a  d'', raised = None, final = ([], ())\<rparr>"
    by (simp add: view_take_until_traverse_const_def ForwardRange_def inherited_loop_all)
  ultimately show ?thesis by (rule conjI)
qed

text \<open>
  C4, as the code has it by design. A sized range shorter than \<open>n\<close> makes both the
  adaptor \<^verbatim>\<open>take_fn<true, true>\<close> and the constructor of
  \<^verbatim>\<open>view_take<urng_t, true, true>\<close> raise \<^verbatim>\<open>std::invalid_argument\<close>, whatever the
  type of the range: the result of the call is the exception, no cursor exists yet and
  no element has been read. For a range that a move leaves as it was, the adaptor raises
  it exactly when \<^verbatim>\<open>or_throw\<close> is set and the sized range is smaller than requested,
  with \<^verbatim>\<open>exactly\<close> or without it, and the constructor exactly when \<^verbatim>\<open>exactly\<close> and
  \<^verbatim>\<open>or_throw\<close> are set and the sized range is smaller than requested. No comparison
  with the sentinel and no traversal raises it.
\<close>

theorem C4_invalid_bound:
  "(SizedRange ty \<and> length s < unat n \<longrightarrow>
      take_fn True True ty s n = Inl invalid_argument
      \<and> view_take_ctor True True ty s n = Inl invalid_argument)
   \<and> (moved_from ty s = s \<longrightarrow>
        (take_fn exactly or_throw ty s n = Inl invalid_argument
          \<longleftrightarrow> or_throw \<and> SizedRange ty \<and> ranges_size s < n))
   \<and> (moved_from ty s = s \<longrightarrow>
        (view_take_ctor exactly or_throw ty s n = Inl invalid_argument
          \<longleftrightarrow> exactly \<and> or_throw \<and> SizedRange ty \<and> ranges_size s < n))
   \<and> iterator_eq_sentinel or_throw it \<noteq> Inl invalid_argument
   \<and> raised (take_loop host exactly or_throw ty st) \<noteq> Some invalid_argument"
proof -
  have both: "take_fn True True ty s n = Inl invalid_argument
        \<and> view_take_ctor True True ty s n = Inl invalid_argument"
    if "SizedRange ty" "length s < unat n"
    using that ranges_size_less [of s n] ranges_size_moved_less [of s n ty]
    by (simp add: take_fn_def view_take_ctor_def)
  have ctor: "view_take_ctor exactly or_throw ty s n = Inl invalid_argument
        \<longleftrightarrow> exactly \<and> or_throw \<and> SizedRange ty \<and> ranges_size s < n"
    if "moved_from ty s = s"
    using that by (simp add: view_take_ctor_def)
  have cmp: "iterator_eq_sentinel or_throw it \<noteq> Inl invalid_argument"
    by (simp add: iterator_eq_sentinel_def)
  from both ctor cmp take_fn_invalid_iff [of ty s exactly or_throw n]
    take_loop_raised [of host exactly or_throw ty st]
  show ?thesis by blast
qed

theorem C4_invalid_bound_witness:
  "(SizedRange (range_type random_access_range True True) \<and> length [1::nat, 2] < unat (5::size_t))
   \<and> take_fn True True (range_type random_access_range True True) [1::nat, 2] 5 = Inl invalid_argument
   \<and> view_take_ctor True True (range_type random_access_range True True) [1::nat, 2] 5
       = Inl invalid_argument
   \<and> moved_from (range_type bidirectional_range True True) [1::nat, 2] = [1, 2]
   \<and> take_fn True True (range_type bidirectional_range True True) [1::nat, 2] 2
       \<noteq> Inl invalid_argument"
proof -
  have h: "SizedRange (range_type random_access_range True True)
           \<and> length [1::nat, 2] < unat (5::size_t)"
    by simp
  note raises = C4_invalid_bound [where ty = "range_type random_access_range True True"
      and s = "[1::nat, 2]" and n = 5, THEN conjunct1, THEN mp, OF h]
  have m: "moved_from (range_type bidirectional_range True True) [1::nat, 2] = [1, 2]"
    by simp
  from C4_invalid_bound [where ty = "range_type bidirectional_range True True"
      and s = "[1::nat, 2]" and n = 2 and exactly = True and or_throw = True,
      THEN conjunct2, THEN conjunct1, THEN mp, OF m]
  have enough: "take_fn True True (range_type bidirectional_range True True) [1::nat, 2] 2
       \<noteq> Inl invalid_argument"
    by (simp add: ranges_size_def)
  from h raises m enough show ?thesis by blast
qed

text \<open>
  C4 as stated fails: without \<^verbatim>\<open>exactly\<close>, the adaptor \<^verbatim>\<open>take_fn<false, true>\<close>
  raises \<^verbatim>\<open>std::invalid_argument\<close> too on a sized range of two elements asked for
  five.
\<close>

theorem C4_not_only_exact_counterexample:
  "take_fn False True (range_type random_access_range True True) [1::nat, 2] 5
     = Inl invalid_argument"
  by (simp add: take_fn_def ranges_size_def)

text \<open>
  The constructor reads the size of its parameter after the move: a sized view that
  owns its three elements, asked for three, is refused, by the constructor and so by
  the adaptor.
\<close>

lemma view_take_ctor_after_move:
  "view_take_ctor True True (owning_view input_range True) [1::nat, 2, 3] 3
     = Inl invalid_argument
   \<and> take_fn True True (owning_view input_range True) [1::nat, 2, 3] 3
     = Inl invalid_argument"
  by (simp add: view_take_ctor_def take_fn_def ranges_size_def ContiguousRange_def
      RandomAccessRange_def)

text \<open>
  C5. The comparison of the cursor of \<^verbatim>\<open>view_take\<close> with the sentinel is true
  exactly when the offset has reached \<^verbatim>\<open>max_pos\<close>, or the underlying cursor is at its
  end and \<^verbatim>\<open>or_throw\<close> is not set; it raises exactly when \<^verbatim>\<open>or_throw\<close> is set
  and the underlying cursor is at its end before the offset has reached \<^verbatim>\<open>max_pos\<close>,
  and what it raises is \<^verbatim>\<open>unexpected_end_of_input\<close>. For \<open>s\<close> shorter than \<open>n\<close>,
  the view \<^verbatim>\<open>view_take<urng_t, false, true>\<close> is constructed, its traversal yields all
  of \<open>s\<close> and then raises \<^verbatim>\<open>unexpected_end_of_input\<close> with the underlying cursor
  at the end: every comparison before the end is false, the one at the end raises. That
  view is what the adaptor returns for a single-pass range that is not sized.
\<close>

theorem C5_take_sentinel:
  "(iterator_eq_sentinel or_throw it = Inr True
      \<longleftrightarrow> max_pos it \<le> pos it \<or> (base it = [] \<and> \<not> or_throw))
   \<and> (iterator_eq_sentinel or_throw it = Inl e
      \<longleftrightarrow> e = unexpected_end_of_input \<and> or_throw \<and> pos it < max_pos it \<and> base it = [])
   \<and> (length s < unat n \<longrightarrow>
        view_take_ctor False True ty s n = Inr \<lparr>urange = s, target_size = n\<rparr>
        \<and> view_take_traverse False True ty \<lparr>urange = s, target_size = n\<rparr>
            = \<lparr>yielded = s, raised = Some unexpected_end_of_input,
               final = (\<lparr>base = [], pos = of_nat (length s), max_pos = n\<rparr>,
                        \<lparr>urange = s, target_size = n\<rparr>)\<rparr>
        \<and> (\<forall>k < length s.
              iterator_eq_sentinel True \<lparr>base = drop k s, pos = of_nat k, max_pos = n\<rparr> = Inr False)
        \<and> iterator_eq_sentinel True \<lparr>base = [], pos = of_nat (length s), max_pos = n\<rparr>
            = Inl unexpected_end_of_input)
   \<and> (\<not> ForwardIterator ty \<and> \<not> SizedRange ty \<longrightarrow>
        take_fn False True ty s n = Inr (view_take_result \<lparr>urange = s, target_size = n\<rparr>))"
proof -
  have fn: "take_fn False True ty s n = Inr (view_take_result \<lparr>urange = s, target_size = n\<rparr>)"
    if "\<not> ForwardIterator ty" "\<not> SizedRange ty"
  proof -
    from that have "traversal_of ty = input_range" by (simp add: ForwardIterator_def)
    then have "ty \<noteq> basic_string_view" "ty \<noteq> basic_string_const_ref"
      "\<not> ContiguousRange ty" "\<not> RandomAccessRange ty"
      by (auto simp: ContiguousRange_def RandomAccessRange_def)
    with that show ?thesis
      by (simp add: take_fn_def Let_def view_take_ctor_def)
  qed
  have eq: "iterator_eq_sentinel or_throw it = Inr True
      \<longleftrightarrow> max_pos it \<le> pos it \<or> (base it = [] \<and> \<not> or_throw)"
    by (simp add: iterator_eq_sentinel_def base_at_end_def)
  have thr: "iterator_eq_sentinel or_throw it = Inl e
      \<longleftrightarrow> e = unexpected_end_of_input \<and> or_throw \<and> pos it < max_pos it \<and> base it = []"
    by (auto simp: iterator_eq_sentinel_def base_at_end_def not_le)
  have run: "view_take_ctor False True ty s n = Inr \<lparr>urange = s, target_size = n\<rparr>
        \<and> view_take_traverse False True ty \<lparr>urange = s, target_size = n\<rparr>
            = \<lparr>yielded = s, raised = Some unexpected_end_of_input,
               final = (\<lparr>base = [], pos = of_nat (length s), max_pos = n\<rparr>,
                        \<lparr>urange = s, target_size = n\<rparr>)\<rparr>
        \<and> (\<forall>k < length s.
              iterator_eq_sentinel True \<lparr>base = drop k s, pos = of_nat k, max_pos = n\<rparr> = Inr False)
        \<and> iterator_eq_sentinel True \<lparr>base = [], pos = of_nat (length s), max_pos = n\<rparr>
            = Inl unexpected_end_of_input"
    if len: "length s < unat n"
  proof -
    have "view_take_traverse False True ty \<lparr>urange = s, target_size = n\<rparr>
            = \<lparr>yielded = s, raised = Some unexpected_end_of_input,
               final = (\<lparr>base = [], pos = of_nat (length s), max_pos = n\<rparr>,
                        \<lparr>urange = s, target_size = n\<rparr>)\<rparr>"
      using len by (simp add: view_take_traverse_run min_def)
    moreover have "iterator_eq_sentinel True \<lparr>base = drop k s, pos = of_nat k, max_pos = n\<rparr> = Inr False"
      if "k < length s" for k
    proof -
      from that len have "k < unat n" by arith
      then have "(of_nat k :: size_t) < n" by (rule of_nat_less_size_t)
      with that show ?thesis
        by (simp add: iterator_eq_sentinel_def base_at_end_def not_le [symmetric])
    qed
    moreover have "iterator_eq_sentinel True \<lparr>base = [], pos = of_nat (length s), max_pos = n\<rparr>
            = Inl unexpected_end_of_input"
      using of_nat_less_size_t [OF len]
      by (simp add: iterator_eq_sentinel_def base_at_end_def not_le [symmetric])
    ultimately show ?thesis
      by (simp add: view_take_ctor_def)
  qed
  from eq thr run fn show ?thesis by blast
qed

theorem C5_take_sentinel_witness:
  "length [7::nat, 8, 9] < unat (5::size_t)
   \<and> view_take_traverse False True (range_type input_range False False)
        \<lparr>urange = [7::nat, 8, 9], target_size = 5\<rparr>
       = \<lparr>yielded = [7, 8, 9], raised = Some unexpected_end_of_input,
          final = (\<lparr>base = [], pos = 3, max_pos = 5\<rparr>, \<lparr>urange = [7, 8, 9], target_size = 5\<rparr>)\<rparr>"
proof -
  have h: "length [7::nat, 8, 9] < unat (5::size_t)" by simp
  from C5_take_sentinel [where s = "[7::nat, 8, 9]" and n = 5
      and ty = "range_type input_range False False",
      THEN conjunct2, THEN conjunct2, THEN conjunct1, THEN mp, OF h] h
  show ?thesis by (elim conjE) (simp (no_asm_simp))
qed

text \<open>
  C6. With \<^verbatim>\<open>or_throw\<close>, either iterator, and a regular predicate that no element of
  \<open>s\<close> satisfies, the traversal yields all of \<open>s\<close> and then raises
  \<^verbatim>\<open>unexpected_end_of_input\<close>. Over an empty range (whatever the functor) the
  traversal raises it having yielded nothing, and it is the first comparison with the
  sentinel that raises; without \<^verbatim>\<open>or_throw\<close> the traversal of an empty range yields
  nothing and raises nothing.
\<close>

theorem C6_or_throw:
  "((\<forall>x \<in> set s. \<not> p x) \<longrightarrow>
      view_take_until_traverse True and_consume ty (regular_invocable p) s f =
        \<lparr>yielded = s, raised = Some unexpected_end_of_input, final = ([], f)\<rparr>)
   \<and> view_take_until_traverse True and_consume ty call [] g =
        \<lparr>yielded = [], raised = Some unexpected_end_of_input, final = ([], g)\<rparr>
   \<and> basic_sentinel_eq True call ([], g) = (Inl unexpected_end_of_input, g)
   \<and> basic_consume_iterator_ctor call [] g = Inr (\<lparr>cursor = [], at_end_gracefully = False\<rparr>, g)
   \<and> consume_eq_sentinel True call (\<lparr>cursor = [], at_end_gracefully = False\<rparr>, g)
        = (Inl unexpected_end_of_input, g)
   \<and> view_take_until_traverse False and_consume ty call [] g =
        \<lparr>yielded = [], raised = None, final = ([], g)\<rparr>"
proof -
  have none: "view_take_until_traverse True and_consume ty (regular_invocable p) s f =
        \<lparr>yielded = s, raised = Some unexpected_end_of_input, final = ([], f)\<rparr>"
    if a: "\<forall>x \<in> set s. \<not> p x"
  proof (cases "and_consume \<and> \<not> ForwardRange ty")
    case True
    from a have tw: "takeWhile (\<lambda>x. \<not> p x) s = s" and dw: "dropWhile (\<lambda>x. \<not> p x) s = []"
      by (simp_all add: takeWhile_eq_all_conv dropWhile_eq_Nil_conv)
    from True a show ?thesis
      by (simp add: traverse_consuming tw dw)
  next
    case False
    then have "\<not> and_consume \<or> ForwardRange ty" by blast
    from traverse_non_consuming [OF this, of True p s f] a show ?thesis
      by (simp add: takeWhile_eq_all_conv)
  qed
  have ctor: "basic_consume_iterator_ctor call [] g = Inr (\<lparr>cursor = [], at_end_gracefully = False\<rparr>, g)"
    by (simp add: basic_consume_iterator_ctor_def base_at_end_def)
  have loop_Nil: "consume_loop thr call (\<lparr>cursor = [], at_end_gracefully = False\<rparr>, g) =
        \<lparr>yielded = [], raised = (if thr then Some unexpected_end_of_input else None),
         final = (\<lparr>cursor = [], at_end_gracefully = False\<rparr>, g)\<rparr>" for thr
    by (subst consume_loop.simps) (simp add: consume_eq_sentinel_def base_at_end_def)
  have empty: "view_take_until_traverse thr and_consume ty call [] g =
        \<lparr>yielded = [], raised = (if thr then Some unexpected_end_of_input else None), final = ([], g)\<rparr>"
    for thr
    by (simp add: view_take_until_traverse_def ctor until_loop_Nil loop_Nil consumed_def)
  have cmp: "basic_sentinel_eq True call ([], g) = (Inl unexpected_end_of_input, g)"
    "consume_eq_sentinel True call (\<lparr>cursor = [], at_end_gracefully = False\<rparr>, g)
        = (Inl unexpected_end_of_input, g)"
    by (simp_all add: basic_sentinel_eq_def consume_eq_sentinel_def base_at_end_def)
  show ?thesis
    using none ctor empty [of True] empty [of False] cmp
    by (intro conjI impI) simp_all
qed

theorem C6_or_throw_witness:
  "list_all (\<lambda>x. \<not> x = 2) [1::nat, 3, 5]
   \<and> view_take_until_traverse True False (range_type forward_range False False)
        (regular_invocable (\<lambda>x. x = 2)) [1::nat, 3, 5] () =
        \<lparr>yielded = [1, 3, 5], raised = Some unexpected_end_of_input, final = ([], ())\<rparr>
   \<and> view_take_until_traverse True True (range_type input_range False False)
        (regular_invocable (\<lambda>x. x = 2)) [1::nat, 3, 5] () =
        \<lparr>yielded = [1, 3, 5], raised = Some unexpected_end_of_input, final = ([], ())\<rparr>"
proof -
  have l: "list_all (\<lambda>x. \<not> x = 2) [1::nat, 3, 5]" by simp
  then have h: "\<forall>x \<in> set [1::nat, 3, 5]. \<not> x = 2" by (simp only: list_all_iff)
  note c1 = C6_or_throw [where p = "\<lambda>x. x = 2" and s = "[1::nat, 3, 5]" and f = "()"
      and and_consume = False and ty = "range_type forward_range False False",
      THEN conjunct1, THEN mp, OF h]
  note c2 = C6_or_throw [where p = "\<lambda>x. x = 2" and s = "[1::nat, 3, 5]" and f = "()"
      and and_consume = True and ty = "range_type input_range False False",
      THEN conjunct1, THEN mp, OF h]
  show ?thesis by (intro conjI l c1 c2)
qed

text \<open>
  C7. For a sized, forwarding range \<open>s\<close> with random access (contiguous or not) and at
  least \<open>n\<close> elements, the adaptor returns a string view, a span or a subrange over
  the first \<open>n\<close> elements, and what can be observed of it, the elements its traversal
  yields and its size, is what can be observed of the general \<^verbatim>\<open>view_take\<close>
  constructed from the same \<open>s\<close> and \<open>n\<close>: the first \<open>n\<close> elements, no exception,
  and the size \<open>n\<close>.
\<close>

theorem C7_representation:
  assumes "SizedRange ty" and "ForwardingRange ty" and "RandomAccessRange ty"
    and "length s < 2 ^ 64" and "unat n \<le> length s"
  shows "take_fn exactly or_throw ty s n =
           Inr (if ty = basic_string_view \<or> ty = basic_string_const_ref
                then string_view_result (take (unat n) s)
                else if ContiguousRange ty then span_result (take (unat n) s)
                else subrange_result (take (unat n) s) n)
         \<and> take_observed exactly or_throw ty s n = general_view_observed exactly or_throw ty s n
         \<and> take_observed exactly or_throw ty s n = Inr ((take (unat n) s, None), Some n)"
proof -
  from assms have le: "n \<le> ranges_size s"
    by (simp add: word_le_nat_alt unat_ranges_size)
  then have nlt: "\<not> ranges_size s < n" by simp
  from le have m: "min n (ranges_size s) = n" by simp
  have fn: "first_n s n = Inr (take (unat n) s)"
    using assms by (simp add: first_n_def)
  have len: "(of_nat (min (length s) (unat n)) :: size_t) = n"
    using assms by (simp add: min_def)
  have rep: "take_fn exactly or_throw ty s n =
           Inr (if ty = basic_string_view \<or> ty = basic_string_const_ref
                then string_view_result (take (unat n) s)
                else if ContiguousRange ty then span_result (take (unat n) s)
                else subrange_result (take (unat n) s) n)"
    using assms nlt by (auto simp: take_fn_def Let_def m fn substr0_def)
  have gen: "general_view_observed exactly or_throw ty s n = Inr ((take (unat n) s, None), Some n)"
    using assms nlt
    by (simp add: general_view_observed_def view_take_ctor_def moved_from_forwarding observe_def
        result_traverse_def result_size_def view_take_size_def view_take_traverse_run m)
  have obs: "take_observed exactly or_throw ty s n = Inr ((take (unat n) s, None), Some n)"
    by (simp add: take_observed_def rep observe_def result_traverse_def result_size_def len)
  from rep gen obs show ?thesis by simp
qed

theorem C7_representation_witness:
  "(SizedRange (range_type contiguous_range True True)
    \<and> ForwardingRange (range_type contiguous_range True True)
    \<and> RandomAccessRange (range_type contiguous_range True True)
    \<and> length [7::nat, 8, 9] < 2 ^ 64 \<and> unat (2::size_t) \<le> length [7::nat, 8, 9])
   \<and> take_fn False False (range_type contiguous_range True True) [7::nat, 8, 9] 2
       = Inr (span_result [7, 8])
   \<and> general_view_observed False False (range_type contiguous_range True True) [7::nat, 8, 9] 2
       = Inr (([7, 8], None), Some 2)"
proof -
  have h: "SizedRange (range_type contiguous_range True True)"
    "ForwardingRange (range_type contiguous_range True True)"
    "RandomAccessRange (range_type contiguous_range True True)"
    "length [7::nat, 8, 9] < 2 ^ 64" "unat (2::size_t) \<le> length [7::nat, 8, 9]"
    by (simp_all add: RandomAccessRange_def)
  note c = C7_representation [OF h, where exactly = False and or_throw = False]
  from c [THEN conjunct1]
  have r: "take_fn False False (range_type contiguous_range True True) [7::nat, 8, 9] 2
       = Inr (span_result [7, 8])"
    by (simp add: ContiguousRange_def)
  from c [THEN conjunct2]
  have g: "general_view_observed False False (range_type contiguous_range True True)
       [7::nat, 8, 9] 2 = Inr (([7, 8], None), Some 2)"
    by (elim conjE) simp
  from h r g show ?thesis by blast
qed

text \<open>
  C8. When a call leaves the functor as it was (a regular functor), any number of
  comparisons of a \<^verbatim>\<open>basic_iterator\<close> with the \<^verbatim>\<open>basic_sentinel\<close>, without
  advancing in between, all give the result of the first (the same boolean, or the same
  exception), and leave the cursor and the functor where they were.
\<close>

theorem C8_compare_idempotent:
  assumes "\<And>f x. snd (call f x) = f"
  shows "compare_n k or_throw call (it, f)
           = (replicate k (fst (basic_sentinel_eq or_throw call (it, f))), (it, f))"
proof (induction k)
  case 0
  show ?case by simp
next
  case (Suc k)
  have same: "snd (basic_sentinel_eq or_throw call (it, f)) = f"
  proof (cases it)
    case Nil
    then show ?thesis by (simp add: basic_sentinel_eq_def base_at_end_def)
  next
    case (Cons x xs)
    obtain b f' where c: "call f x = (b, f')" by (cases "call f x")
    with assms [of f x] have "f' = f" by simp
    with Cons c show ?thesis
      by (simp add: basic_sentinel_eq_def base_at_end_def base_deref_def)
  qed
  obtain r f' where cmp: "basic_sentinel_eq or_throw call (it, f) = (r, f')"
    by (cases "basic_sentinel_eq or_throw call (it, f)")
  with same have f': "f' = f" by simp
  from cmp f' Suc.IH show ?case by simp
qed

theorem C8_compare_idempotent_witness:
  "(\<forall>f x. snd (regular_invocable (\<lambda>x::nat. x = 2) (f::unit) x) = f)
   \<and> compare_n 3 False (regular_invocable (\<lambda>x. x = 2)) ([2::nat, 5], ())
       = ([Inr True, Inr True, Inr True], ([2, 5], ()))
   \<and> compare_n 3 True (regular_invocable (\<lambda>x. x = 2)) ([]::nat list, ())
       = ([Inl unexpected_end_of_input, Inl unexpected_end_of_input, Inl unexpected_end_of_input],
          ([], ()))"
proof -
  have h: "snd (regular_invocable (\<lambda>x::nat. x = 2) f x) = f" for f :: unit and x
    by (simp add: regular_invocable_def)
  have "compare_n 3 False (regular_invocable (\<lambda>x. x = 2)) ([2::nat, 5], ())
       = ([Inr True, Inr True, Inr True], ([2, 5], ()))"
    using C8_compare_idempotent [of "regular_invocable (\<lambda>x::nat. x = 2)" 3 False "[2, 5]" "()", OF h]
    by (simp add: basic_sentinel_eq_def base_at_end_def base_deref_def regular_invocable_def
        numeral_3_eq_3)
  moreover have "compare_n 3 True (regular_invocable (\<lambda>x. x = 2)) ([]::nat list, ())
       = ([Inl unexpected_end_of_input, Inl unexpected_end_of_input, Inl unexpected_end_of_input],
          ([], ()))"
    using C8_compare_idempotent [of "regular_invocable (\<lambda>x::nat. x = 2)" 3 True "[]" "()", OF h]
    by (simp add: basic_sentinel_eq_def base_at_end_def numeral_3_eq_3)
  ultimately show ?thesis using h by simp
qed

text \<open>
  The functor must be regular for that: one that answers true on every second call gives
  two different results at the same cursor.
\<close>

lemma C8_needs_regular:
  "compare_n 2 False (\<lambda>f x. (f, \<not> f)) ([1::nat], False) = ([Inr False, Inr True], ([1], False))"
  by (simp add: numeral_2_eq_2 basic_sentinel_eq_def base_at_end_def base_deref_def)

text \<open>
  A cursor of \<^verbatim>\<open>begin()\<close> holds its host. In the exact configuration over a
  single-pass range, an advance of such a cursor decrements the
  \<^verbatim>\<open>target_size\<close> of the owning view by one. For the view constructed with the count
  \<open>n\<close> (the view the adaptor returns for a single-pass range that is not sized), after
  \<open>k\<close> rounds of a traversal from \<^verbatim>\<open>begin()\<close>, \<open>k\<close> is at most \<open>n\<close> and
  \<^verbatim>\<open>size()\<close> of the view is \<open>n\<close> minus \<open>k\<close>.
\<close>

lemma hosted_cursor_remaining_length:
  assumes "\<not> ForwardIterator ty"
    and "view_take_ctor True or_throw ty s n = Inr v"
    and "take_rounds k True True or_throw ty (view_take_begin v) = Some (it', v')"
  shows "view_take_size True ty v' = Some (n - of_nat k)
         \<and> k \<le> unat n
         \<and> unat (target_size v') = unat n - k
         \<and> pos it' = of_nat k
         \<and> (iterator_inc True True ty st = Inr st1
               \<longrightarrow> target_size (snd st1) = target_size (snd st) - 1)
         \<and> (\<not> SizedRange ty \<longrightarrow> take_fn True or_throw ty s n = Inr (view_take_result v))"
proof -
  from assms(2) have n: "target_size v = n" and v: "v = \<lparr>urange = s, target_size = n\<rparr>"
    by (auto simp: view_take_ctor_def split: if_splits)
  from take_rounds_counts [OF assms(3)] assms(1)
  have k: "k \<le> unat (target_size v)"
    and p: "pos it' = of_nat k"
    and t: "target_size v' = target_size v - of_nat k"
    by (auto simp: view_take_begin_def)
  have "unat (target_size v) < 2 ^ 64" using unsigned_less [of "target_size v"] by simp
  with k have "unat (of_nat k :: size_t) = k" by (simp add: unat_of_nat)
  with k have "(of_nat k :: size_t) \<le> target_size v" by (simp add: word_le_nat_alt)
  then have "unat (target_size v - of_nat k) = unat (target_size v) - unat (of_nat k :: size_t)"
    by (rule unat_sub)
  with \<open>unat (of_nat k :: size_t) = k\<close> t
  have u: "unat (target_size v') = unat (target_size v) - k" by simp
  have dec: "target_size (snd st1) = target_size (snd st) - 1"
    if "iterator_inc True True ty st = Inr st1"
    using that assms(1) by (auto simp: iterator_inc_def split: sum.splits)
  have fn: "take_fn True or_throw ty s n = Inr (view_take_result v)" if "\<not> SizedRange ty"
  proof -
    from assms(1) have i: "traversal_of ty = input_range" by (simp add: ForwardIterator_def)
    then have "ty \<noteq> basic_string_view" "ty \<noteq> basic_string_const_ref"
      "\<not> ContiguousRange ty" "\<not> RandomAccessRange ty"
      by (auto simp: ContiguousRange_def RandomAccessRange_def)
    with that show ?thesis
      by (simp add: take_fn_def Let_def view_take_ctor_def v)
  qed
  from k p t u dec fn n show ?thesis by (simp add: view_take_size_def)
qed

text \<open>
  A cursor of \<^verbatim>\<open>begin() const\<close> or \<^verbatim>\<open>cbegin()\<close> holds no host: in the exact
  configuration over a single-pass range every advance of it that the underlying cursor
  allows dereferences the null \<^verbatim>\<open>host_ptr\<close>.
\<close>

lemma hostless_cursor_advance:
  assumes "\<not> ForwardIterator ty" and "base (fst st) \<noteq> []"
  shows "iterator_inc False True ty st = Inl undefined_behaviour"
  using assms by (cases "base (fst st)") (simp_all add: iterator_inc_def base_inc_def)

text \<open>
  C9 on the code, at the view with \<^verbatim>\<open>exactly\<close> set and the count three over the
  single-pass range \<open>[7, 8, 9]\<close>. From \<^verbatim>\<open>begin()\<close>, two rounds of the traversal leave
  the \<^verbatim>\<open>target_size\<close> of the view, and so its \<^verbatim>\<open>size()\<close>, at one, as C9 says. From
  \<^verbatim>\<open>begin() const\<close> of the same view the first advance dereferences a null pointer:
  nothing is decremented, and the traversal of the const view ends there, after the
  first element.
\<close>

theorem C9_const_cursor_null_host:
  "take_rounds 2 True True False (range_type input_range False False)
        (view_take_begin \<lparr>urange = [7::nat, 8, 9], target_size = 3\<rparr>)
       = Some (\<lparr>base = [9], pos = 2, max_pos = 3\<rparr>, \<lparr>urange = [7, 8, 9], target_size = 1\<rparr>)
   \<and> view_take_size True (range_type input_range False False)
         \<lparr>urange = [7::nat, 8, 9], target_size = 1\<rparr> = Some 1
   \<and> iterator_inc False True (range_type input_range False False)
        (view_take_cbegin \<lparr>urange = [7::nat, 8, 9], target_size = 3\<rparr>)
       = Inl undefined_behaviour
   \<and> view_take_traverse_const True False (range_type input_range False False)
        \<lparr>urange = [7::nat, 8, 9], target_size = 3\<rparr>
       = \<lparr>yielded = [7], raised = Some undefined_behaviour,
          final = (\<lparr>base = [7, 8, 9], pos = 0, max_pos = 3\<rparr>,
                   \<lparr>urange = [7, 8, 9], target_size = 3\<rparr>)\<rparr>"
proof -
  have two: "(2::nat) = Suc (Suc 0)" by simp
  have hosted: "take_rounds 2 True True False (range_type input_range False False)
        (view_take_begin \<lparr>urange = [7::nat, 8, 9], target_size = 3\<rparr>)
       = Some (\<lparr>base = [9], pos = 2, max_pos = 3\<rparr>, \<lparr>urange = [7, 8, 9], target_size = 1\<rparr>)"
    by (subst two)
       (simp add: view_take_begin_def iterator_eq_sentinel_def base_at_end_def
          iterator_inc_def base_inc_def ForwardIterator_def word_le_nat_alt)
  have size: "view_take_size True (range_type input_range False False)
         \<lparr>urange = [7::nat, 8, 9], target_size = 1\<rparr> = Some 1"
    by (simp add: view_take_size_def)
  have null: "iterator_inc False True (range_type input_range False False)
        (view_take_cbegin \<lparr>urange = [7::nat, 8, 9], target_size = 3\<rparr>)
       = Inl undefined_behaviour"
    by (simp add: view_take_cbegin_def iterator_inc_def base_inc_def ForwardIterator_def)
  have run: "view_take_traverse_const True False (range_type input_range False False)
        \<lparr>urange = [7::nat, 8, 9], target_size = 3\<rparr>
       = \<lparr>yielded = [7], raised = Some undefined_behaviour,
          final = (\<lparr>base = [7, 8, 9], pos = 0, max_pos = 3\<rparr>,
                   \<lparr>urange = [7, 8, 9], target_size = 3\<rparr>)\<rparr>"
    by (simp add: view_take_traverse_const_def view_take_cbegin_def take_loop_Cons
        ForwardIterator_def)
  show ?thesis by (intro conjI hosted size null run)
qed

text \<open>
  C10, as the code has it. For a regular predicate, the constructor of
  \<^verbatim>\<open>basic_consume_iterator\<close> returns, and every \<^verbatim>\<open>operator++\<close> that returns
  returns, a cursor with the invariant: not ended gracefully and not at the end of the
  underlying range, it points to an element that does not satisfy the predicate. On
  such a cursor the comparison with the sentinel is true when it has ended gracefully;
  otherwise, at the end of the underlying range, it is true without \<^verbatim>\<open>or_throw\<close> and
  raises \<^verbatim>\<open>unexpected_end_of_input\<close> with it; otherwise it is false (the branch that
  evaluates the predicate). Without \<^verbatim>\<open>or_throw\<close> it is true exactly when the cursor
  has ended gracefully or the underlying range is exhausted.
\<close>

theorem C10_consume_invariant:
  "(\<exists>it. basic_consume_iterator_ctor (regular_invocable p) s f = Inr (it, f)
          \<and> consume_invariant p it)
   \<and> (consume_inc (regular_invocable p) (it0, f) = Inr (it1, f1)
        \<longrightarrow> consume_invariant p it1 \<and> f1 = f)
   \<and> (consume_invariant p it \<longrightarrow>
        consume_eq_sentinel or_throw (regular_invocable p) (it, f) =
          (if at_end_gracefully it then Inr True
           else if base_at_end (cursor it) then
             (if or_throw then Inl unexpected_end_of_input else Inr True)
           else Inr False, f))
   \<and> (consume_invariant p it \<longrightarrow>
        (fst (consume_eq_sentinel False (regular_invocable p) (it, f)) = Inr True
           \<longleftrightarrow> at_end_gracefully it \<or> base_at_end (cursor it)))"
proof -
  have nomatch: "consume_invariant p \<lparr>cursor = dropWhile p xs, at_end_gracefully = g\<rparr>" for xs g
  proof (cases "dropWhile p xs")
    case Nil
    then show ?thesis by (simp add: consume_invariant_def base_at_end_def)
  next
    case (Cons y ys)
    with hd_dropWhile [of p xs] show ?thesis by (simp add: consume_invariant_def)
  qed
  have ctor: "\<exists>it. basic_consume_iterator_ctor (regular_invocable p) s f = Inr (it, f)
          \<and> consume_invariant p it"
    by (simp add: ctor_regular nomatch)
  have inc: "consume_invariant p it1 \<and> f1 = f"
    if a: "consume_inc (regular_invocable p) (it0, f) = Inr (it1, f1)"
  proof (cases "cursor it0")
    case Nil
    with a show ?thesis by (simp add: consume_inc_def base_inc_def)
  next
    case (Cons x xs)
    then have "it0 = \<lparr>cursor = x # xs, at_end_gracefully = at_end_gracefully it0\<rparr>" by simp
    with a have "consume_inc (regular_invocable p)
        (\<lparr>cursor = x # xs, at_end_gracefully = at_end_gracefully it0\<rparr>, f) = Inr (it1, f1)"
      by simp
    then show ?thesis
      by (auto simp: consume_inc_regular nomatch)
  qed
  have cmp: "consume_eq_sentinel thr (regular_invocable p) (it, f) =
          (if at_end_gracefully it then Inr True
           else if base_at_end (cursor it) then
             (if thr then Inl unexpected_end_of_input else Inr True)
           else Inr False, f)"
    if "consume_invariant p it" for thr
    using that
    by (cases "cursor it")
       (auto simp: consume_eq_sentinel_def consume_invariant_def base_at_end_def base_deref_def
          regular_invocable_apply)
  from cmp [of False] have iff:
    "fst (consume_eq_sentinel False (regular_invocable p) (it, f)) = Inr True
           \<longleftrightarrow> at_end_gracefully it \<or> base_at_end (cursor it)"
    if "consume_invariant p it"
    using that by simp
  from ctor inc cmp [of or_throw] iff show ?thesis by blast
qed

theorem C10_consume_invariant_witness:
  "consume_inc (regular_invocable (\<lambda>x. x = CHR '' '')) (\<lparr>cursor = ''a  d'', at_end_gracefully = False\<rparr>, ())
     = Inr (\<lparr>cursor = ''d'', at_end_gracefully = True\<rparr>, ())
   \<and> consume_invariant (\<lambda>x. x = CHR '' '') \<lparr>cursor = ''d'', at_end_gracefully = True\<rparr>
   \<and> consume_eq_sentinel True (regular_invocable (\<lambda>x. x = CHR '' ''))
        (\<lparr>cursor = ''d'', at_end_gracefully = True\<rparr>, ()) = (Inr True, ())"
proof -
  have h: "consume_inc (regular_invocable (\<lambda>x. x = CHR '' ''))
      (\<lparr>cursor = ''a  d'', at_end_gracefully = False\<rparr>, ())
     = Inr (\<lparr>cursor = ''d'', at_end_gracefully = True\<rparr>, ())"
    by (simp add: consume_inc_regular)
  note c = C10_consume_invariant [where p = "\<lambda>x. x = CHR '' ''" and f = "()"
      and ?it0.0 = "\<lparr>cursor = ''a  d'', at_end_gracefully = False\<rparr>"
      and ?it1.0 = "\<lparr>cursor = ''d'', at_end_gracefully = True\<rparr>" and ?f1.0 = "()"
      and it = "\<lparr>cursor = ''d'', at_end_gracefully = True\<rparr>" and or_throw = True]
  from c [THEN conjunct2, THEN conjunct1, THEN mp, OF h]
  have i: "consume_invariant (\<lambda>x. x = CHR '' '') \<lparr>cursor = ''d'', at_end_gracefully = True\<rparr>"
    by simp
  from c [THEN conjunct2, THEN conjunct2, THEN conjunct1, THEN mp, OF i]
  have e: "consume_eq_sentinel True (regular_invocable (\<lambda>x. x = CHR '' ''))
        (\<lparr>cursor = ''d'', at_end_gracefully = True\<rparr>, ()) = (Inr True, ())"
    by simp
  show ?thesis by (intro conjI h i e)
qed

text \<open>
  C10 as stated fails with \<^verbatim>\<open>or_throw\<close>: over an empty range the constructed cursor is
  at the end of the underlying range, and the comparison raises instead of being true.
\<close>

theorem C10_or_throw_counterexample:
  "basic_consume_iterator_ctor (regular_invocable (\<lambda>x::nat. x = 0)) [] ()
     = Inr (\<lparr>cursor = [], at_end_gracefully = False\<rparr>, ())
   \<and> base_at_end (cursor \<lparr>cursor = []::nat list, at_end_gracefully = False\<rparr>)
   \<and> fst (consume_eq_sentinel True (regular_invocable (\<lambda>x::nat. x = 0))
            (\<lparr>cursor = [], at_end_gracefully = False\<rparr>, ())) = Inl unexpected_end_of_input
   \<and> fst (consume_eq_sentinel True (regular_invocable (\<lambda>x::nat. x = 0))
            (\<lparr>cursor = [], at_end_gracefully = False\<rparr>, ())) \<noteq> Inr True"
  by (simp add: basic_consume_iterator_ctor_def consume_eq_sentinel_def base_at_end_def)

end
